theory Spec2Isabelle
  imports Complex_Main "HOL-Library.AList"
begin

section \<open>Random nanowire networks: the model of \<^verbatim>\<open>randomnwn/nanowires.py\<close>\<close>

text \<open>
  The module builds a random nanowire network in a networkx graph (wires are nodes,
  junctions are edges) and assembles the conductance matrix of the resistor network.
  Python integers are modelled by \<^typ>\<open>int\<close>, dictionaries by association lists in
  insertion order (\<open>AList.update\<close> is the assignment \<^verbatim>\<open>d[k] = v\<close>), and every
  exception the code can raise is a value of \<open>py_error\<close>. The floats that
  \<^verbatim>\<open>create_NWN\<close> and \<^verbatim>\<open>add_wires\<close> compute and store (\<^verbatim>\<open>size\<close>,
  \<^verbatim>\<open>wire_density\<close>, \<^verbatim>\<open>junction_density\<close>) are IEEE doubles, \<open>pyfloat\<close> below; the
  coordinates, lengths and resistances that the module hands on are given by their
  values in \<^typ>\<open>real\<close>.
\<close>

subsection \<open>Exceptions\<close>

datatype py_error =
  ValueError | TypeError | KeyError | IndexError | ZeroDivisionError | NetworkXError
  | OverflowError

subsection \<open>The libraries the module calls\<close>

text \<open>
  Shapely supplies the geometry. Its operations are parameters of the model:
  \<open>'l\<close> is the type of a LineString, \<open>'p\<close> the type of the geometry that
  \<^verbatim>\<open>intersection\<close> and \<^verbatim>\<open>centroid\<close> return.
\<close>

record ('l, 'p) shapely =
  LineString :: "(real \<times> real) list \<Rightarrow> 'l"
  intersects :: "'l \<Rightarrow> 'l \<Rightarrow> bool"
  intersection :: "'l \<Rightarrow> 'l \<Rightarrow> 'p"
  centroid :: "'l \<Rightarrow> 'p"

text \<open>
  NumPy's random generator: \<open>default_rng seed\<close> makes a generator, and
  \<open>uniform lo hi g\<close> draws one number and returns the advanced generator.
\<close>

record 'g numpy_random =
  default_rng :: "int option \<Rightarrow> 'g"
  uniform :: "real \<Rightarrow> real \<Rightarrow> 'g \<Rightarrow> real \<times> 'g"

text \<open>Python 3 \<^verbatim>\<open>round\<close> of a float: to the nearest integer, a tie to the even one.\<close>

definition py_round :: "real \<Rightarrow> int" where
  "py_round x =
     (let f = \<lfloor>x\<rfloor>; r = x - of_int f
      in if r < 1 / 2 then f else if 1 / 2 < r then f + 1
         else if even f then f else f + 1)"

text \<open>Python true division \<^verbatim>\<open>a / b\<close> of two Python numbers.\<close>

definition py_div :: "real \<Rightarrow> real \<Rightarrow> py_error + real" where
  "py_div a b = (if b = 0 then Inl ZeroDivisionError else Inr (a / b))"

subsection \<open>Floats\<close>

text \<open>
  A Python float is an IEEE 754 double: an infinity, nan, or a finite number
  \<open>m * 2^k\<close> with \<open>\<bar>m\<bar> < 2^53\<close> and \<open>- 1074 \<le> k \<le> 971\<close>, given here by its value.
  The two zeros are one value: the module divides by \<^verbatim>\<open>size\<close> only, a square, which
  is never the negative zero.
\<close>

datatype pyfloat = Finite real | PosInf | NegInf | NaN

text \<open>
  Rounding of an exact result to a double, to the nearest with a tie to the even
  significand: \<open>binade x\<close> is the exponent of \<open>x\<close>, at least that of the subnormal
  numbers, the doubles around \<open>x\<close> are the multiples of \<open>2^(binade x - 52)\<close>, and a
  result that reaches \<open>2^1024\<close> is an infinity.
\<close>

definition binade :: "real \<Rightarrow> int" where
  "binade x = max \<lfloor>log 2 \<bar>x\<bar>\<rfloor> (- 1022)"

definition double_round :: "real \<Rightarrow> pyfloat" where
  "double_round x =
     (if x = 0 then Finite 0
      else
        (let u = 2 powi (binade x - 52); y = of_int (py_round (x / u)) * u
         in if 2 ^ 1024 \<le> y then PosInf
            else if y \<le> - (2 ^ 1024) then NegInf
            else Finite y))"

text \<open>The product \<^verbatim>\<open>a * b\<close> of two floats.\<close>

fun ieee_mul :: "pyfloat \<Rightarrow> pyfloat \<Rightarrow> pyfloat" where
  "ieee_mul (Finite x) (Finite y) = double_round (x * y)"
| "ieee_mul NaN b = NaN"
| "ieee_mul a NaN = NaN"
| "ieee_mul (Finite x) b =
     (if x = 0 then NaN else if (0 < x) = (b = PosInf) then PosInf else NegInf)"
| "ieee_mul a (Finite y) =
     (if y = 0 then NaN else if (0 < y) = (a = PosInf) then PosInf else NegInf)"
| "ieee_mul a b = (if a = b then PosInf else NegInf)"

text \<open>
  The quotient of two floats as the hardware and NumPy compute it: a division by zero
  gives an infinity, or nan for \<open>0 / 0\<close>.
\<close>

fun ieee_div :: "pyfloat \<Rightarrow> pyfloat \<Rightarrow> pyfloat" where
  "ieee_div NaN b = NaN"
| "ieee_div a NaN = NaN"
| "ieee_div (Finite x) (Finite y) =
     (if y \<noteq> 0 then double_round (x / y)
      else if x = 0 then NaN else if 0 < x then PosInf else NegInf)"
| "ieee_div (Finite x) b = Finite 0"
| "ieee_div a (Finite y) = (if (0 \<le> y) = (a = PosInf) then PosInf else NegInf)"
| "ieee_div a b = NaN"

text \<open>Python \<^verbatim>\<open>round(x)\<close> of a float: it raises for an infinity and for nan.\<close>

fun float_round :: "pyfloat \<Rightarrow> py_error + int" where
  "float_round (Finite x) = Inr (py_round x)"
| "float_round NaN = Inl ValueError"
| "float_round a = Inl OverflowError"

text \<open>
  Python \<^verbatim>\<open>n / b\<close> of an integer and a float: the integer is converted to a float,
  which raises when it is too large, and a divisor \<open>0\<close> raises.
\<close>

definition int_truediv :: "int \<Rightarrow> pyfloat \<Rightarrow> py_error + pyfloat" where
  "int_truediv n b =
     (case double_round (of_int n) of
        Finite a \<Rightarrow> if b = Finite 0 then Inl ZeroDivisionError else Inr (ieee_div (Finite a) b)
      | PosInf \<Rightarrow> Inl OverflowError
      | NegInf \<Rightarrow> Inl OverflowError
      | NaN \<Rightarrow> Inl OverflowError)"

text \<open>
  \<^verbatim>\<open>k / b\<close> of a NumPy integer and a float: NumPy converts the integer, divides, and
  does not raise (a division by zero is a warning).
\<close>

definition np_truediv :: "int \<Rightarrow> pyfloat \<Rightarrow> pyfloat" where
  "np_truediv k b = ieee_div (double_round (of_int k)) b"

subsection \<open>The network\<close>

text \<open>A node of the graph: the attributes \<^verbatim>\<open>line\<close>, \<^verbatim>\<open>midpoint\<close>, \<^verbatim>\<open>electrode\<close>.\<close>

record ('l, 'p) wire =
  line :: 'l
  midpoint :: 'p
  electrode :: bool

text \<open>
  The graph \<^verbatim>\<open>NWN\<close>: its attribute dictionary \<^verbatim>\<open>NWN.graph\<close> (the first ten
  fields; \<^verbatim>\<open>size\<close> is \<open>size_attr\<close> here), its nodes in insertion order, and its
  edges. A networkx \<^verbatim>\<open>Graph\<close> is undirected and keeps one attribute dictionary per
  unordered pair of nodes, so an edge is stored under the key \<open>(min u v, max u v)\<close>
  with its \<^verbatim>\<open>resistance\<close>.
\<close>

record ('l, 'p) NWN =
  wire_length :: real
  width :: real
  size_attr :: pyfloat
  wire_density :: pyfloat
  wire_num :: int
  electrodes :: int
  junction_resistance :: real
  electrode_list :: "int list"
  loc :: "((int \<times> int) \<times> 'p) list"
  junction_density :: pyfloat
  nodes :: "(int \<times> ('l, 'p) wire) list"
  edges :: "((int \<times> int) \<times> real) list"

text \<open>\<^verbatim>\<open>NWN.add_edges_from(keys, resistance=r)\<close>: every listed edge gets resistance \<open>r\<close>.\<close>

definition add_edges_from ::
  "(int \<times> int) list \<Rightarrow> real \<Rightarrow> ((int \<times> int) \<times> real) list \<Rightarrow> ((int \<times> int) \<times> real) list" where
  "add_edges_from keys r es = fold (\<lambda>(u, v). AList.update (min u v, max u v) r) keys es"

text \<open>\<^verbatim>\<open>NWN.get_edge_data(i, j)\<close>: the edge's data, or \<^verbatim>\<open>None\<close>.\<close>

definition get_edge_data :: "('l, 'p) NWN \<Rightarrow> int \<Rightarrow> int \<Rightarrow> real option" where
  "get_edge_data N i j = map_of (edges N) (min i j, max i j)"

text \<open>
  The edges at node \<open>i\<close>, each read at once as its resistance
  \<^verbatim>\<open>NWN[edge[0]][edge[1]]["resistance"]\<close>.
\<close>

definition incident_resistances :: "('l, 'p) NWN \<Rightarrow> int \<Rightarrow> real list" where
  "incident_resistances N i = map snd (filter (\<lambda>((a, b), r). a = i \<or> b = i) (edges N))"

text \<open>\<^verbatim>\<open>NWN.edges(i)\<close>; networkx raises when \<open>i\<close> is not a node.\<close>

definition edges_of :: "('l, 'p) NWN \<Rightarrow> int \<Rightarrow> py_error + real list" where
  "edges_of N i =
     (if i \<in> fst ` set (nodes N) then Inr (incident_resistances N i)
      else Inl NetworkXError)"

text \<open>\<^verbatim>\<open>d1.update(d2)\<close> on dictionaries.\<close>

definition dict_update :: "('k \<times> 'v) list \<Rightarrow> ('k \<times> 'v) list \<Rightarrow> ('k \<times> 'v) list" where
  "dict_update d1 d2 = fold (\<lambda>(k, v). AList.update k v) d2 d1"

subsection \<open>Sequences of lines\<close>

text \<open>
  \<^verbatim>\<open>find_intersects\<close> and \<^verbatim>\<open>find_line_intersects\<close> use their argument
  \<^verbatim>\<open>lines\<close> through \<^verbatim>\<open>len\<close> and indexing only. They are declared for lists and
  called by \<^verbatim>\<open>create_NWN\<close> and \<^verbatim>\<open>add_wires\<close> with the view
  \<^verbatim>\<open>NWN.nodes.data("line")\<close>: the pairs of a node and its line, with the number
  of nodes as length and indexed by node.
\<close>

datatype 'l lines = PyList "'l list" | NodeDataView "(int \<times> 'l) list"

fun len :: "'l lines \<Rightarrow> int" where
  "len (PyList xs) = int (length xs)"
| "len (NodeDataView ns) = int (length ns)"

fun getitem :: "'l lines \<Rightarrow> int \<Rightarrow> py_error + 'l" where
  "getitem (PyList xs) i =
     (if 0 \<le> i \<and> i < int (length xs) then Inr (xs ! nat i)
      else if i < 0 \<and> - int (length xs) \<le> i then Inr (xs ! nat (i + int (length xs)))
      else Inl IndexError)"
| "getitem (NodeDataView ns) i =
     (case map_of ns i of None \<Rightarrow> Inl KeyError | Some l \<Rightarrow> Inr l)"

text \<open>The view \<^verbatim>\<open>NWN.nodes.data("line")\<close> of a network.\<close>

definition nodes_data_line :: "('l, 'p) NWN \<Rightarrow> 'l lines" where
  "nodes_data_line N = NodeDataView (map (\<lambda>(n, w). (n, line w)) (nodes N))"

subsection \<open>\<^verbatim>\<open>create_line\<close>\<close>

text \<open>
  The two branches of the source differ only in the generator that supplies the three
  draws (the one passed, or NumPy's global one); the model takes the generator in use.
\<close>

definition create_line ::
  "'g numpy_random \<Rightarrow> ('l, 'p) shapely \<Rightarrow> real \<Rightarrow> real \<Rightarrow> real \<Rightarrow> real \<Rightarrow> real \<Rightarrow> 'g \<Rightarrow> 'l \<times> 'g" where
  "create_line np sh len0 xmin xmax ymin ymax rng =
     (let (xmid, g1) = uniform np xmin xmax rng;
          (ymid, g2) = uniform np ymin ymax g1;
          (angle, g3) = uniform np 0 pi g2;
          xhalf = len0 / 2 * cos angle;
          yhalf = len0 / 2 * sin angle;
          xstart = xmid - xhalf; xend = xmid + xhalf;
          ystart = ymid - yhalf; yend = ymid + yhalf
      in (LineString sh [(xstart, ystart), (xend, yend)], g3))"

subsection \<open>\<^verbatim>\<open>find_intersects\<close> and \<^verbatim>\<open>find_line_intersects\<close>\<close>

text \<open>\<^verbatim>\<open>zip(*np.triu_indices(n=n, k=1))\<close>: the pairs \<open>i < j\<close> below \<open>n\<close>, row by row.\<close>

definition triu_indices :: "int \<Rightarrow> (int \<times> int) list" where
  "triu_indices n = concat (map (\<lambda>i. map (\<lambda>j. (i, j)) [i + 1..n - 1]) [0..n - 1])"

fun find_intersects_loop ::
  "('l, 'p) shapely \<Rightarrow> 'l lines \<Rightarrow> (int \<times> int) list \<Rightarrow> ((int \<times> int) \<times> 'p) list
     \<Rightarrow> py_error + ((int \<times> int) \<times> 'p) list" where
  "find_intersects_loop sh lines [] out = Inr out"
| "find_intersects_loop sh lines ((i, j) # ps) out =
     (case getitem lines i of
        Inl e \<Rightarrow> Inl e
      | Inr li \<Rightarrow>
          (case getitem lines j of
             Inl e \<Rightarrow> Inl e
           | Inr lj \<Rightarrow>
               if intersects sh li lj
               then find_intersects_loop sh lines ps
                      (AList.update (i, j) (intersection sh li lj) out)
               else find_intersects_loop sh lines ps out))"

definition find_intersects ::
  "('l, 'p) shapely \<Rightarrow> 'l lines \<Rightarrow> py_error + ((int \<times> int) \<times> 'p) list" where
  "find_intersects sh lines = find_intersects_loop sh lines (triu_indices (len lines)) []"

fun find_line_intersects_loop ::
  "('l, 'p) shapely \<Rightarrow> int \<Rightarrow> 'l lines \<Rightarrow> int list \<Rightarrow> ((int \<times> int) \<times> 'p) list
     \<Rightarrow> py_error + ((int \<times> int) \<times> 'p) list" where
  "find_line_intersects_loop sh ind lines [] out = Inr out"
| "find_line_intersects_loop sh ind lines (j # js) out =
     (if ind = j then find_line_intersects_loop sh ind lines js out
      else
        (case getitem lines ind of
           Inl e \<Rightarrow> Inl e
         | Inr li \<Rightarrow>
             (case getitem lines j of
                Inl e \<Rightarrow> Inl e
              | Inr lj \<Rightarrow>
                  if intersects sh li lj
                  then
                    (if ind < j
                     then find_line_intersects_loop sh ind lines js
                            (AList.update (ind, j) (intersection sh li lj) out)
                     else find_line_intersects_loop sh ind lines js
                            (AList.update (j, ind) (intersection sh li lj) out))
                  else find_line_intersects_loop sh ind lines js out)))"

definition find_line_intersects ::
  "('l, 'p) shapely \<Rightarrow> int \<Rightarrow> 'l lines \<Rightarrow> py_error + ((int \<times> int) \<times> 'p) list" where
  "find_line_intersects sh ind lines =
     find_line_intersects_loop sh ind lines [0..len lines - 1] []"

subsection \<open>\<^verbatim>\<open>create_NWN\<close>\<close>

text \<open>
  The loop \<^verbatim>\<open>for i in range(wire_num)\<close>: one random line per node, drawn from the
  one generator; the node gets its line, \<^verbatim>\<open>electrode=False\<close> and then its midpoint.
\<close>

fun create_nodes ::
  "'g numpy_random \<Rightarrow> ('l, 'p) shapely \<Rightarrow> int list \<Rightarrow> ('l, 'p) NWN \<Rightarrow> 'g \<Rightarrow> ('l, 'p) NWN \<times> 'g" where
  "create_nodes np sh [] N rng = (N, rng)"
| "create_nodes np sh (i # is) N rng =
     (let (ln, rng') = create_line np sh (wire_length N) 0 (width N) 0 (width N) rng;
          N' = N\<lparr>nodes := AList.update i
                  \<lparr>line = ln, midpoint = centroid sh ln, electrode = False\<rparr> (nodes N)\<rparr>
      in create_nodes np sh is N' rng')"

text \<open>
  The arguments \<^verbatim>\<open>width\<close> and \<^verbatim>\<open>density\<close> are finite floats. \<^verbatim>\<open>width * width\<close>
  and \<^verbatim>\<open>size * density\<close> are float products, \<^verbatim>\<open>round\<close> raises when the second is
  not finite, and \<^verbatim>\<open>wire_num / size\<close> divides a Python integer by a float and raises
  for \<open>size = 0\<close>. The attributes \<^verbatim>\<open>loc\<close> and \<^verbatim>\<open>junction_density\<close> are set at
  the end; until then the record holds an empty dictionary and \<open>0\<close> for them.
\<close>

definition create_NWN ::
  "'g numpy_random \<Rightarrow> ('l, 'p) shapely \<Rightarrow> real \<Rightarrow> real \<Rightarrow> real \<Rightarrow> int option \<Rightarrow> real
     \<Rightarrow> py_error + ('l, 'p) NWN" where
  "create_NWN np sh wire_length0 width0 density seed resistance =
     (let size0 = ieee_mul (Finite width0) (Finite width0)
      in case float_round (ieee_mul size0 (Finite density)) of
           Inl e \<Rightarrow> Inl e
         | Inr wire_num0 \<Rightarrow>
             (case int_truediv wire_num0 size0 of
                Inl e \<Rightarrow> Inl e
              | Inr density' \<Rightarrow>
                  (let NWN0 = \<lparr>wire_length = wire_length0, width = width0, size_attr = size0,
                               wire_density = density', wire_num = wire_num0, electrodes = 0,
                               junction_resistance = resistance, electrode_list = [],
                               loc = [], junction_density = Finite 0, nodes = [], edges = []\<rparr>;
                       rng = default_rng np seed;
                       (NWN1, rng') = create_nodes np sh [0..wire_num NWN0 - 1] NWN0 rng
                   in case find_intersects sh (nodes_data_line NWN1) of
                        Inl e \<Rightarrow> Inl e
                      | Inr intersect_dict \<Rightarrow>
                          (case int_truediv (int (length intersect_dict)) size0 of
                             Inl e \<Rightarrow> Inl e
                           | Inr jd \<Rightarrow>
                               Inr (NWN1\<lparr>edges := add_edges_from (map fst intersect_dict)
                                                     resistance (edges NWN1),
                                         loc := intersect_dict,
                                         junction_density := jd\<rparr>)))))"

subsection \<open>\<^verbatim>\<open>add_wires\<close>\<close>

text \<open>
  \<^verbatim>\<open>add_wires\<close> mutates the network, and what it has written stays when it raises:
  the model returns the exception, if any, together with the network as the call
  leaves it.
\<close>

fun add_wires_loop ::
  "('l, 'p) shapely \<Rightarrow> int \<Rightarrow> 'l list \<Rightarrow> bool list \<Rightarrow> nat list \<Rightarrow> ('l, 'p) NWN
     \<Rightarrow> py_error option \<times> ('l, 'p) NWN" where
  "add_wires_loop sh start_ind lines els [] N = (None, N)"
| "add_wires_loop sh start_ind lines els (i # is) N =
     (let N1 = N\<lparr>nodes := AList.update (start_ind + int i)
                  \<lparr>line = lines ! i, midpoint = centroid sh (lines ! i), electrode = els ! i\<rparr>
                  (nodes N)\<rparr>;
          N2 = (if els ! i
                then N1\<lparr>electrode_list := electrode_list N1 @ [start_ind + int i]\<rparr>
                else N1)
      in case find_line_intersects sh (start_ind + int i) (nodes_data_line N2) of
           Inl e \<Rightarrow> (Some e, N2)
         | Inr intersect_dict \<Rightarrow>
             add_wires_loop sh start_ind lines els is
               (N2\<lparr>edges := add_edges_from (map fst intersect_dict)
                               (junction_resistance N2) (edges N2),
                   loc := dict_update (loc N2) intersect_dict\<rparr>))"

text \<open>
  The last statement divides a NumPy integer (\<^verbatim>\<open>electrodes\<close> has been increased by
  \<^verbatim>\<open>np.sum\<close>) by \<^verbatim>\<open>size\<close>: for \<open>size = 0\<close> this does not raise, and the result is
  an infinity or nan.
\<close>

definition add_wires ::
  "('l, 'p) shapely \<Rightarrow> ('l, 'p) NWN \<Rightarrow> 'l list \<Rightarrow> bool list \<Rightarrow> py_error option \<times> ('l, 'p) NWN" where
  "add_wires sh N lines els =
     (let new_wire_num = length lines
      in if new_wire_num \<noteq> length els then (Some ValueError, N)
         else
           (let start_ind = wire_num N;
                N1 = N\<lparr>wire_num := wire_num N + int new_wire_num,
                       electrodes := electrodes N + int (length (filter (\<lambda>b. b) els))\<rparr>
            in case add_wires_loop sh start_ind lines els [0..<new_wire_num] N1 of
                 (Some e, N2) \<Rightarrow> (Some e, N2)
               | (None, N2) \<Rightarrow>
                   (None, N2\<lparr>wire_density :=
                            np_truediv (wire_num N2 - electrodes N2) (size_attr N2)\<rparr>)))"

subsection \<open>Sparse matrices\<close>

text \<open>
  A scipy \<^verbatim>\<open>dok_matrix\<close> is a shape and a dictionary from index pairs to the non-zero
  entries. The constructor rejects a negative dimension; an index may be negative
  (counted from the end) and raises when out of range; assigning \<open>0\<close> stores nothing
  and removes a stored entry; reading an entry that is not stored gives \<open>0\<close>.
\<close>

record dok_matrix =
  shape :: "int \<times> int"
  entries :: "((int \<times> int) \<times> real) list"

definition new_dok_matrix :: "int \<times> int \<Rightarrow> py_error + dok_matrix" where
  "new_dok_matrix s =
     (if fst s < 0 \<or> snd s < 0 then Inl ValueError else Inr \<lparr>shape = s, entries = []\<rparr>)"

definition index :: "int \<Rightarrow> int \<Rightarrow> py_error + int" where
  "index n i =
     (if 0 \<le> i \<and> i < n then Inr i
      else if i < 0 \<and> - n \<le> i then Inr (i + n)
      else Inl IndexError)"

definition dok_setitem :: "dok_matrix \<Rightarrow> int \<Rightarrow> int \<Rightarrow> real \<Rightarrow> py_error + dok_matrix" where
  "dok_setitem G i j x =
     (case index (fst (shape G)) i of
        Inl e \<Rightarrow> Inl e
      | Inr i' \<Rightarrow>
          (case index (snd (shape G)) j of
             Inl e \<Rightarrow> Inl e
           | Inr j' \<Rightarrow>
               Inr (G\<lparr>entries := (if x \<noteq> 0 then AList.update (i', j') x (entries G)
                                   else AList.delete (i', j') (entries G))\<rparr>)))"

definition dok_value :: "dok_matrix \<Rightarrow> int \<times> int \<Rightarrow> real" where
  "dok_value G k = (case map_of (entries G) k of None \<Rightarrow> 0 | Some x \<Rightarrow> x)"

definition dok_getitem :: "dok_matrix \<Rightarrow> int \<Rightarrow> int \<Rightarrow> py_error + real" where
  "dok_getitem G i j =
     (case index (fst (shape G)) i of
        Inl e \<Rightarrow> Inl e
      | Inr i' \<Rightarrow>
          (case index (snd (shape G)) j of
             Inl e \<Rightarrow> Inl e
           | Inr j' \<Rightarrow>
               Inr (dok_value G (i', j'))))"

definition dok_transpose :: "dok_matrix \<Rightarrow> dok_matrix" where
  "dok_transpose M =
     \<lparr>shape = (snd (shape M), fst (shape M)),
      entries = map (\<lambda>((i, j), x). ((j, i), x)) (entries M)\<rparr>"

definition dok_neg :: "dok_matrix \<Rightarrow> dok_matrix" where
  "dok_neg M = M\<lparr>entries := map (\<lambda>(k, x). (k, - x)) (entries M)\<rparr>"

text \<open>
  \<^verbatim>\<open>scipy.sparse.bmat([[G, B], [C, None]])\<close>: the block matrix with a zero block in
  the corner; the blocks of a row must agree in height, those of a column in width.
\<close>

definition bmat :: "dok_matrix \<Rightarrow> dok_matrix \<Rightarrow> dok_matrix \<Rightarrow> py_error + dok_matrix" where
  "bmat G B C =
     (if fst (shape G) \<noteq> fst (shape B) \<or> snd (shape G) \<noteq> snd (shape C)
      then Inl ValueError
      else Inr \<lparr>shape = (fst (shape G) + fst (shape C), snd (shape G) + snd (shape B)),
                entries = entries G
                  @ map (\<lambda>((i, j), x). ((i, j + snd (shape G)), x)) (entries B)
                  @ map (\<lambda>((i, j), x). ((i + fst (shape G), j), x)) (entries C)\<rparr>)"

subsection \<open>\<^verbatim>\<open>conductance_matrix\<close>\<close>

text \<open>
  The list comprehension of the diagonal entry:
  \<^verbatim>\<open>[1 / r for r in ... if r != 0]\<close> over the resistances of the edges at a node.
\<close>

fun diagonal_terms :: "real list \<Rightarrow> py_error + real list" where
  "diagonal_terms [] = Inr []"
| "diagonal_terms (r # rs) =
     (if r \<noteq> 0
      then (case py_div 1 r of
              Inl e \<Rightarrow> Inl e
            | Inr t \<Rightarrow>
                (case diagonal_terms rs of Inl e \<Rightarrow> Inl e | Inr ts \<Rightarrow> Inr (t # ts)))
      else diagonal_terms rs)"

text \<open>The inner loop \<^verbatim>\<open>for j in range(wire_num)\<close> of row \<open>i\<close>.\<close>

fun conductance_row ::
  "('l, 'p) NWN \<Rightarrow> int \<Rightarrow> int \<Rightarrow> int list \<Rightarrow> dok_matrix \<Rightarrow> py_error + dok_matrix" where
  "conductance_row N drain_node i [] G = Inr G"
| "conductance_row N drain_node i (j # js) G =
     (if i = j then
        (if i = drain_node then
           (case dok_setitem G i j 1 of
              Inl e \<Rightarrow> Inl e
            | Inr G1 \<Rightarrow> conductance_row N drain_node i js G1)
         else
           (case edges_of N i of
              Inl e \<Rightarrow> Inl e
            | Inr rs \<Rightarrow>
                (case diagonal_terms rs of
                   Inl e \<Rightarrow> Inl e
                 | Inr ts \<Rightarrow>
                     (case dok_setitem G i j (sum_list ts) of
                        Inl e \<Rightarrow> Inl e
                      | Inr G1 \<Rightarrow>
                          (case dok_getitem G1 i j of
                             Inl e \<Rightarrow> Inl e
                           | Inr x \<Rightarrow>
                               (case dok_setitem G1 i j (x + 1 / 10 ^ 8) of
                                  Inl e \<Rightarrow> Inl e
                                | Inr G2 \<Rightarrow> conductance_row N drain_node i js G2))))))
      else
        (if i \<noteq> drain_node then
           (case get_edge_data N i j of
              None \<Rightarrow> conductance_row N drain_node i js G
            | Some r \<Rightarrow>
                (case py_div (- 1) r of
                   Inl e \<Rightarrow> Inl e
                 | Inr x \<Rightarrow>
                     (case dok_setitem G i j x of
                        Inl e \<Rightarrow> Inl e
                      | Inr G1 \<Rightarrow> conductance_row N drain_node i js G1)))
         else conductance_row N drain_node i js G))"

text \<open>The outer loop \<^verbatim>\<open>for i in range(wire_num)\<close>.\<close>

fun conductance_rows ::
  "('l, 'p) NWN \<Rightarrow> int \<Rightarrow> int list \<Rightarrow> int list \<Rightarrow> dok_matrix \<Rightarrow> py_error + dok_matrix" where
  "conductance_rows N drain_node [] js G = Inr G"
| "conductance_rows N drain_node (i # is) js G =
     (case conductance_row N drain_node i js G of
        Inl e \<Rightarrow> Inl e
      | Inr G1 \<Rightarrow> conductance_rows N drain_node is js G1)"

definition conductance_matrix :: "('l, 'p) NWN \<Rightarrow> int \<Rightarrow> py_error + dok_matrix" where
  "conductance_matrix N drain_node =
     (let wire_num0 = wire_num N
      in case new_dok_matrix (wire_num0, wire_num0) of
           Inl e \<Rightarrow> Inl e
         | Inr G \<Rightarrow>
             conductance_rows N drain_node [0..wire_num0 - 1] [0..wire_num0 - 1] G)"

subsection \<open>\<^verbatim>\<open>solve_network\<close>\<close>

text \<open>
  A call of \<^verbatim>\<open>conductance_matrix\<close> with a list of positional arguments. The function
  is declared with the two parameters \<^verbatim>\<open>NWN\<close> and \<^verbatim>\<open>drain_node\<close>; Python binds
  the arguments to them before the body runs and raises \<^verbatim>\<open>TypeError\<close> when their
  number is not two.
\<close>

datatype ('l, 'p) py_value = GraphArg "('l, 'p) NWN" | IntArg int

fun call_conductance_matrix :: "('l, 'p) py_value list \<Rightarrow> py_error + dok_matrix" where
  "call_conductance_matrix [GraphArg N, IntArg drain_node] = conductance_matrix N drain_node"
| "call_conductance_matrix args = Inl TypeError"

text \<open>
  \<^verbatim>\<open>scipy.sparse.linalg.spsolve\<close> is the parameter \<open>spsolve\<close>. The call of
  \<^verbatim>\<open>conductance_matrix\<close> passes three arguments, as the source does.
\<close>

definition solve_network ::
  "(dok_matrix \<Rightarrow> dok_matrix \<Rightarrow> py_error + real list) \<Rightarrow> ('l, 'p) NWN \<Rightarrow> int \<Rightarrow> int \<Rightarrow> real
     \<Rightarrow> py_error + real list" where
  "solve_network spsolve N source_node drain_node voltage =
     (let wire_num0 = wire_num N
      in case call_conductance_matrix [GraphArg N, IntArg source_node, IntArg drain_node] of
           Inl e \<Rightarrow> Inl e
         | Inr G \<Rightarrow>
             (case new_dok_matrix (wire_num0, 1) of
                Inl e \<Rightarrow> Inl e
              | Inr B0 \<Rightarrow>
                  (case dok_setitem B0 source_node 0 (- 1) of
                     Inl e \<Rightarrow> Inl e
                   | Inr B \<Rightarrow>
                       (let C = dok_neg (dok_transpose B)
                        in case bmat G B C of
                             Inl e \<Rightarrow> Inl e
                           | Inr A \<Rightarrow>
                               (case new_dok_matrix (wire_num0 + 1, 1) of
                                  Inl e \<Rightarrow> Inl e
                                | Inr z0 \<Rightarrow>
                                    (case dok_setitem z0 (- 1) 0 voltage of
                                       Inl e \<Rightarrow> Inl e
                                     | Inr z \<Rightarrow> spsolve A z))))))"

subsection \<open>A geometry and a generator to run the model on\<close>

text \<open>
  The theorems below hold for every geometry and every generator. To run the model on
  concrete wires, \<open>box_shapely\<close> is a small exact geometry: a line is its list of
  points, two lines intersect when their bounding boxes meet, and the intersection is
  the centre of the common box. For a horizontal and a vertical segment this is the
  crossing point. \<open>step_rng\<close> is a deterministic generator: its state counts the
  draws, and a draw is the lower bound at an even count, the middle of the interval at
  an odd one.
\<close>

fun bbox :: "(real \<times> real) list \<Rightarrow> (real \<times> real) \<times> (real \<times> real)" where
  "bbox [] = ((0, 0), (0, 0))"
| "bbox ((x, y) # ps) =
     ((fold min (map fst ps) x, fold min (map snd ps) y),
      (fold max (map fst ps) x, fold max (map snd ps) y))"

definition box_intersects :: "(real \<times> real) list \<Rightarrow> (real \<times> real) list \<Rightarrow> bool" where
  "box_intersects a b =
     (case (bbox a, bbox b) of
        (((ax0, ay0), (ax1, ay1)), ((bx0, by0), (bx1, by1))) \<Rightarrow>
          max ax0 bx0 \<le> min ax1 bx1 \<and> max ay0 by0 \<le> min ay1 by1)"

definition box_intersection :: "(real \<times> real) list \<Rightarrow> (real \<times> real) list \<Rightarrow> real \<times> real" where
  "box_intersection a b =
     (case (bbox a, bbox b) of
        (((ax0, ay0), (ax1, ay1)), ((bx0, by0), (bx1, by1))) \<Rightarrow>
          ((max ax0 bx0 + min ax1 bx1) / 2, (max ay0 by0 + min ay1 by1) / 2))"

definition box_centroid :: "(real \<times> real) list \<Rightarrow> real \<times> real" where
  "box_centroid a = (case bbox a of ((ax0, ay0), (ax1, ay1)) \<Rightarrow> ((ax0 + ax1) / 2, (ay0 + ay1) / 2))"

definition box_shapely :: "((real \<times> real) list, real \<times> real) shapely" where
  "box_shapely =
     \<lparr>LineString = (\<lambda>ps. ps), intersects = box_intersects,
      intersection = box_intersection, centroid = box_centroid\<rparr>"

definition step_rng :: "nat numpy_random" where
  "step_rng =
     \<lparr>default_rng = (\<lambda>seed. 0),
      uniform = (\<lambda>lo hi g. (if even g then lo else (lo + hi) / 2, Suc g))\<rparr>"

subsection \<open>A concrete network\<close>

text \<open>
  Three wires given by their end points: wire \<open>0\<close> lies along \<open>y = 1\<close>, the electrodes
  \<open>1\<close> and \<open>2\<close> cross it at \<open>(1, 1)\<close> and \<open>(3, 1)\<close>, and both junctions have
  resistance \<open>10\<close>.
\<close>

definition bridge_network :: "((real \<times> real) list, real \<times> real) NWN" where
  "bridge_network =
     \<lparr>wire_length = 4, width = 4, size_attr = Finite 16, wire_density = Finite (1 / 16),
      wire_num = 3,
      electrodes = 2, junction_resistance = 10, electrode_list = [1, 2],
      loc = [((0, 1), (1, 1)), ((0, 2), (3, 1))], junction_density = Finite 0,
      nodes = [(0, \<lparr>line = [(0, 1), (4, 1)], midpoint = (2, 1), electrode = False\<rparr>),
               (1, \<lparr>line = [(1, 0), (1, 2)], midpoint = (1, 1), electrode = True\<rparr>),
               (2, \<lparr>line = [(3, 0), (3, 2)], midpoint = (3, 1), electrode = True\<rparr>)],
      edges = [((0, 1), 10), ((0, 2), 10)]\<rparr>"

text \<open>The lines of the three wires of the bridge network, as a Python list.\<close>

definition three_wires :: "(real \<times> real) list lines" where
  "three_wires = PyList [[(0, 1), (4, 1)], [(1, 0), (1, 2)], [(3, 0), (3, 2)]]"

subsection \<open>The entries of the conductance matrix, as specified\<close>

text \<open>
  The entry in row \<open>i\<close> and column \<open>j\<close> for the drain \<open>d\<close>: on the diagonal \<open>1\<close>
  in the drain row and otherwise the sum of \<open>1 / r\<close> over the non-zero resistances
  \<open>r\<close> of the junctions at wire \<open>i\<close>, plus the leakage \<open>1e-8\<close>; off the diagonal
  \<open>- 1 / r\<close> for the junction between \<open>i\<close> and \<open>j\<close>, and \<open>0\<close> when there is none
  or in the drain row.
\<close>

definition conductance_entry :: "('l, 'p) NWN \<Rightarrow> int \<Rightarrow> int \<Rightarrow> int \<Rightarrow> real" where
  "conductance_entry N d i j =
     (if i = j
      then (if i = d then 1
            else (\<Sum>r\<leftarrow>filter (\<lambda>r. r \<noteq> 0) (incident_resistances N i). 1 / r) + 1 / 10 ^ 8)
      else if i = d then 0
      else (case get_edge_data N i j of None \<Rightarrow> 0 | Some r \<Rightarrow> - 1 / r))"

subsection \<open>The restriction of an intersection dictionary to one line\<close>

text \<open>
  The entries of a dictionary of intersections whose key pair contains the index \<open>i\<close>,
  in the dictionary's order.
\<close>

definition restrict_to_index :: "int \<Rightarrow> ((int \<times> int) \<times> 'p) list \<Rightarrow> ((int \<times> int) \<times> 'p) list" where
  "restrict_to_index i out = filter (\<lambda>((a, b), v). a = i \<or> b = i) out"

text \<open>
  The conductance matrix of the bridge network for the drain \<open>2\<close>, and the bridge
  network with the junction between the wires \<open>0\<close> and \<open>1\<close> shorted.
\<close>

definition bridge_conductance :: dok_matrix where
  "bridge_conductance =
     \<lparr>shape = (3, 3),
      entries = [((0, 0), 1 / 5 + 1 / 10 ^ 8), ((0, 1), - 1 / 10), ((0, 2), - 1 / 10),
                 ((1, 0), - 1 / 10), ((1, 1), 1 / 10 + 1 / 10 ^ 8), ((2, 2), 1)]\<rparr>"

definition shorted_network :: "((real \<times> real) list, real \<times> real) NWN" where
  "shorted_network = bridge_network\<lparr>edges := [((0, 1), 0), ((0, 2), 10)]\<rparr>"

subsection \<open>Reachable networks and the electrodes, as specified\<close>

text \<open>
  The networks that \<^verbatim>\<open>create_NWN\<close> returns, and those that calls of
  \<^verbatim>\<open>add_wires\<close> which return normally make of them.
\<close>

inductive reachable ::
  "'g numpy_random \<Rightarrow> ('l, 'p) shapely \<Rightarrow> ('l, 'p) NWN \<Rightarrow> bool"
  for np :: "'g numpy_random" and sh :: "('l, 'p) shapely" where
  created:
    "create_NWN np sh wire_length0 width0 density seed resistance = Inr N \<Longrightarrow> reachable np sh N"
| added:
    "reachable np sh N \<Longrightarrow> add_wires sh N lines els = (None, N') \<Longrightarrow> reachable np sh N'"

text \<open>The sorted list of the wire indices whose \<^verbatim>\<open>electrode\<close> flag is true.\<close>

definition sorted_electrode_indices :: "('l, 'p) NWN \<Rightarrow> int list" where
  "sorted_electrode_indices N = sort (map fst (filter (\<lambda>(i, w). electrode w) (nodes N)))"

subsection \<open>The invariant of the construction\<close>

text \<open>
  The node keys increase strictly in insertion order and stay below the bound \<open>B\<close>;
  the electrode list holds, in that order, the keys of the nodes flagged as
  electrodes; the keys of the edges and of \<^verbatim>\<open>loc\<close> are pairs \<open>(i, j)\<close> with
  \<open>i < j\<close>, each stored once.
\<close>

definition network_invariant :: "int \<Rightarrow> ('l, 'p) NWN \<Rightarrow> bool" where
  "network_invariant B N \<longleftrightarrow>
     sorted_wrt (<) (map fst (nodes N)) \<and>
     (\<forall>k\<in>fst ` set (nodes N). k < B) \<and>
     electrode_list N = map fst (filter (\<lambda>(i, w). electrode w) (nodes N)) \<and>
     (\<forall>k\<in>fst ` set (edges N). fst k < snd k) \<and>
     (\<forall>k\<in>fst ` set (loc N). fst k < snd k) \<and>
     distinct (map fst (edges N)) \<and> distinct (map fst (loc N))"

text \<open>
  The network that \<^verbatim>\<open>create_NWN\<close> makes of \<open>step_rng\<close> for length \<open>4\<close>, width
  \<open>2\<close> and density \<open>1/2\<close> (two crossing wires), and what \<^verbatim>\<open>add_wires\<close> makes of
  it with three more lines, the first and the last of them electrodes.
\<close>

definition cross_network :: "((real \<times> real) list, real \<times> real) NWN" where
  "cross_network =
     \<lparr>wire_length = 4, width = 2, size_attr = Finite 4, wire_density = Finite (1 / 2),
      wire_num = 2,
      electrodes = 0, junction_resistance = 10, electrode_list = [],
      loc = [((0, 1), (1, 1))], junction_density = Finite (1 / 4),
      nodes = [(0, \<lparr>line = [(- 2, 1), (2, 1)], midpoint = (0, 1), electrode = False\<rparr>),
               (1, \<lparr>line = [(1, - 2), (1, 2)], midpoint = (1, 0), electrode = False\<rparr>)],
      edges = [((0, 1), 10)]\<rparr>"

definition grown_network :: "((real \<times> real) list, real \<times> real) NWN" where
  "grown_network =
     \<lparr>wire_length = 4, width = 2, size_attr = Finite 4, wire_density = Finite (3 / 4),
      wire_num = 5,
      electrodes = 2, junction_resistance = 10, electrode_list = [2, 4],
      loc = [((0, 1), (1, 1)), ((0, 2), (- 1, 1)), ((0, 4), (2, 1))],
      junction_density = Finite (1 / 4),
      nodes = [(0, \<lparr>line = [(- 2, 1), (2, 1)], midpoint = (0, 1), electrode = False\<rparr>),
               (1, \<lparr>line = [(1, - 2), (1, 2)], midpoint = (1, 0), electrode = False\<rparr>),
               (2, \<lparr>line = [(- 1, 0), (- 1, 2)], midpoint = (- 1, 1), electrode = True\<rparr>),
               (3, \<lparr>line = [(5, 5), (6, 5)], midpoint = (11 / 2, 5), electrode = False\<rparr>),
               (4, \<lparr>line = [(2, 0), (2, 3)], midpoint = (2, 3 / 2), electrode = True\<rparr>)],
      edges = [((0, 1), 10), ((0, 2), 10), ((0, 4), 10)]\<rparr>"

subsection \<open>A geometry that answers by the line asked\<close>

text \<open>
  A second geometry to run the model on. Lines and intersections are lists of points;
  two lines intersect when their bounding boxes meet; the intersection is the common
  box, a single point or its two corners, listed in the direction of the line that is
  asked (the receiver of \<^verbatim>\<open>intersection\<close>). For two overlapping collinear lines that
  run in opposite directions, the answer depends on which of them is asked.
\<close>

definition directed_intersection ::
  "(real \<times> real) list \<Rightarrow> (real \<times> real) list \<Rightarrow> (real \<times> real) list" where
  "directed_intersection a b =
     (case (bbox a, bbox b) of
        (((ax0, ay0), (ax1, ay1)), ((bx0, by0), (bx1, by1))) \<Rightarrow>
          (let lo = (max ax0 bx0, max ay0 by0); hi = (min ax1 bx1, min ay1 by1)
           in if lo = hi then [lo]
              else if hd a = fst (bbox a) then [lo, hi] else [hi, lo]))"

definition directed_shapely :: "((real \<times> real) list, (real \<times> real) list) shapely" where
  "directed_shapely =
     \<lparr>LineString = (\<lambda>ps. ps), intersects = box_intersects,
      intersection = directed_intersection, centroid = (\<lambda>a. [box_centroid a])\<rparr>"

section \<open>Properties\<close>

subsection \<open>\<^verbatim>\<open>solve_network\<close>\<close>

text \<open>
  C1. The claim: the vector that \<^verbatim>\<open>solve_network\<close> returns has \<open>0\<close> at the drain
  node and the applied voltage at the source node. The code returns no vector: on the
  bridge network with source \<open>1\<close>, drain \<open>2\<close> and \<open>5\<close> volts, whatever the solver,
  the call ends in \<^verbatim>\<open>TypeError\<close>.
\<close>

theorem solve_network_bridge_raises:
  "solve_network spsolve bridge_network 1 2 5 = Inl TypeError"
  unfolding solve_network_def by simp

text \<open>
  C2. \<^verbatim>\<open>conductance_matrix\<close> takes two arguments and \<^verbatim>\<open>solve_network\<close> passes
  three, so every call of \<^verbatim>\<open>solve_network\<close> raises \<^verbatim>\<open>TypeError\<close>, before any
  matrix is built and whatever the solver would do.
\<close>

theorem solve_network_always_TypeError:
  "solve_network spsolve N source_node drain_node voltage = Inl TypeError"
  by (simp add: solve_network_def)

subsection \<open>\<^verbatim>\<open>add_wires\<close> with lists of different lengths\<close>

text \<open>
  C4. When the list of lines and the list of electrode flags differ in length,
  \<^verbatim>\<open>add_wires\<close> raises \<^verbatim>\<open>ValueError\<close> and the network is the one it was given:
  every attribute, node and edge is unchanged.
\<close>

theorem add_wires_length_mismatch:
  "length lines \<noteq> length els \<Longrightarrow> add_wires sh N lines els = (Some ValueError, N)"
  by (simp add: add_wires_def)

theorem add_wires_length_mismatch_witness:
  "length [[(0, 0), (1, 1)], [(0, 1), (1, 0)], [(2, 2), (3, 3 :: real)]]
     \<noteq> length [True, False] \<and>
   add_wires box_shapely bridge_network
     [[(0, 0), (1, 1)], [(0, 1), (1, 0)], [(2, 2), (3, 3)]] [True, False]
     = (Some ValueError, bridge_network)"
  using add_wires_length_mismatch
    [of "[[(0, 0), (1, 1)], [(0, 1), (1, 0)], [(2, 2), (3, 3)]]" "[True, False]"
        box_shapely bridge_network]
  by simp

subsection \<open>The keys of the intersection dictionaries\<close>

lemma set_triu_indices: "set (triu_indices n) = {(i, j). 0 \<le> i \<and> i < j \<and> j < n}"
proof -
  have "(a, b) \<in> set (triu_indices n) \<longleftrightarrow> 0 \<le> a \<and> a < b \<and> b < n" for a b
    unfolding triu_indices_def by (auto simp: image_iff)
  then show ?thesis by auto
qed

lemma distinct_rows:
  "distinct xs \<Longrightarrow> (\<And>x. x \<in> set xs \<Longrightarrow> distinct (g x)) \<Longrightarrow>
   distinct (concat (map (\<lambda>i. map (Pair i) (g i)) xs))"
  by (induction xs) (auto simp: distinct_map inj_on_def)

lemma distinct_triu_indices: "distinct (triu_indices n)"
  unfolding triu_indices_def by (rule distinct_rows) simp_all

lemma find_intersects_loop_step:
  "find_intersects_loop sh lines ((i, j) # ps) out = Inr out' \<Longrightarrow>
   \<exists>out1. find_intersects_loop sh lines ps out1 = Inr out' \<and>
          (out1 = out \<or> (\<exists>v. out1 = AList.update (i, j) v out))"
  by (auto split: sum.splits if_splits)

lemma find_intersects_loop_keys:
  "find_intersects_loop sh lines ps out = Inr out' \<Longrightarrow>
   fst ` set out' \<subseteq> fst ` set out \<union> set ps"
proof (induction ps arbitrary: out)
  case Nil
  then show ?case by simp
next
  case (Cons p ps)
  obtain i j where p: "p = (i, j)" by (cases p)
  from Cons.prems obtain out1 where
    run: "find_intersects_loop sh lines ps out1 = Inr out'" and
    o1: "out1 = out \<or> (\<exists>v. out1 = AList.update (i, j) v out)"
    unfolding p using find_intersects_loop_step by blast
  have "fst ` set (AList.update (i, j) v out) = {(i, j)} \<union> fst ` set out" for v
    by (rule dom_update)
  with o1 have "fst ` set out1 \<subseteq> fst ` set out \<union> {p}"
    unfolding p by blast
  with Cons.IH [OF run] show ?case by auto
qed

lemma find_intersects_loop_distinct:
  "find_intersects_loop sh lines ps out = Inr out' \<Longrightarrow> distinct (map fst out) \<Longrightarrow>
   distinct (map fst out')"
proof (induction ps arbitrary: out)
  case Nil
  then show ?case by simp
next
  case (Cons p ps)
  obtain i j where p: "p = (i, j)" by (cases p)
  from Cons.prems(1) obtain out1 where
    run: "find_intersects_loop sh lines ps out1 = Inr out'" and
    o1: "out1 = out \<or> (\<exists>v. out1 = AList.update (i, j) v out)"
    unfolding p using find_intersects_loop_step by blast
  from o1 Cons.prems(2) have "distinct (map fst out1)"
    by (auto simp: distinct_update)
  with Cons.IH [OF run] show ?case by simp
qed

lemma find_line_intersects_loop_step:
  "find_line_intersects_loop sh ind lines (j # js) out = Inr out' \<Longrightarrow>
   \<exists>out1. find_line_intersects_loop sh ind lines js out1 = Inr out' \<and>
          (out1 = out \<or> (j \<noteq> ind \<and> (\<exists>v. out1 = AList.update (min ind j, max ind j) v out)))"
  by (auto split: sum.splits if_splits simp: min_def max_def)

lemma find_line_intersects_loop_keys:
  "find_line_intersects_loop sh ind lines js out = Inr out' \<Longrightarrow>
   fst ` set out' \<subseteq> fst ` set out \<union> (\<lambda>j. (min ind j, max ind j)) ` (set js - {ind})"
proof (induction js arbitrary: out)
  case Nil
  then show ?case by simp
next
  case (Cons j js)
  from Cons.prems obtain out1 where
    run: "find_line_intersects_loop sh ind lines js out1 = Inr out'" and
    o1: "out1 = out \<or> (j \<noteq> ind \<and> (\<exists>v. out1 = AList.update (min ind j, max ind j) v out))"
    using find_line_intersects_loop_step by blast
  have "fst ` set (AList.update (min ind j, max ind j) v out)
          = {(min ind j, max ind j)} \<union> fst ` set out" for v
    by (rule dom_update)
  with o1 have "fst ` set out1 \<subseteq> fst ` set out \<union> (\<lambda>j. (min ind j, max ind j)) ` ({j} - {ind})"
    by blast
  with Cons.IH [OF run] show ?case by auto
qed

lemma find_line_intersects_loop_distinct:
  "find_line_intersects_loop sh ind lines js out = Inr out' \<Longrightarrow> distinct (map fst out) \<Longrightarrow>
   distinct (map fst out')"
proof (induction js arbitrary: out)
  case Nil
  then show ?case by simp
next
  case (Cons j js)
  from Cons.prems(1) obtain out1 where
    run: "find_line_intersects_loop sh ind lines js out1 = Inr out'" and
    o1: "out1 = out \<or> (j \<noteq> ind \<and> (\<exists>v. out1 = AList.update (min ind j, max ind j) v out))"
    using find_line_intersects_loop_step by blast
  from o1 Cons.prems(2) have "distinct (map fst out1)"
    by (auto simp: distinct_update)
  with Cons.IH [OF run] show ?case by simp
qed

lemma upto_0_2: "[0..(2::int)] = [0, 1, 2]" "[1..(2::int)] = [1, 2]" "[2..(2::int)] = [2]"
  "[3..(2::int)] = []"
  by (simp_all add: upto.simps)

subsection \<open>\<^verbatim>\<open>find_line_intersects\<close> against \<^verbatim>\<open>find_intersects\<close>\<close>

lemma update_fresh: "k \<notin> fst ` set al \<Longrightarrow> AList.update k v al = al @ [(k, v)]"
  by (induction al) auto

lemma getitem_PyList:
  "0 \<le> i \<Longrightarrow> i < int (length xs) \<Longrightarrow> getitem (PyList xs) i = Inr (xs ! nat i)"
  by simp

lemma find_intersects_loop_PyList:
  assumes "\<And>i j. (i, j) \<in> set ps \<Longrightarrow> 0 \<le> i \<and> i < int (length xs) \<and> 0 \<le> j \<and> j < int (length xs)"
    and "distinct ps" and "set ps \<inter> fst ` set out = {}"
  shows "find_intersects_loop sh (PyList xs) ps out =
         Inr (out @ map (\<lambda>(i, j). ((i, j), intersection sh (xs ! nat i) (xs ! nat j)))
                      (filter (\<lambda>(i, j). intersects sh (xs ! nat i) (xs ! nat j)) ps))"
  using assms
proof (induction ps arbitrary: out)
  case Nil
  then show ?case by simp
next
  case (Cons p ps)
  obtain i j where p: "p = (i, j)" by (cases p)
  have rng: "0 \<le> i" "i < int (length xs)" "0 \<le> j" "j < int (length xs)"
    using Cons.prems(1) [of i j] unfolding p by simp_all
  have gi: "getitem (PyList xs) i = Inr (xs ! nat i)" using rng by simp
  have gj: "getitem (PyList xs) j = Inr (xs ! nat j)" using rng by simp
  have fresh: "(i, j) \<notin> fst ` set out" using Cons.prems(3) unfolding p by auto
  have rest: "\<And>a b. (a, b) \<in> set ps \<Longrightarrow> 0 \<le> a \<and> a < int (length xs) \<and> 0 \<le> b \<and> b < int (length xs)"
    by (rule Cons.prems(1)) simp
  have dps: "distinct ps" and notin: "(i, j) \<notin> set ps" using Cons.prems(2) unfolding p by simp_all
  show ?case
  proof (cases "intersects sh (xs ! nat i) (xs ! nat j)")
    case True
    let ?out1 = "out @ [((i, j), intersection sh (xs ! nat i) (xs ! nat j))]"
    have disj: "set ps \<inter> fst ` set ?out1 = {}"
      using Cons.prems(3) notin unfolding p by auto
    have "find_intersects_loop sh (PyList xs) (p # ps) out =
          find_intersects_loop sh (PyList xs) ps ?out1"
      unfolding p using True fresh
      by (simp add: gi gj update_fresh del: getitem.simps)
    also note Cons.IH [OF rest dps disj]
    finally show ?thesis unfolding p using True by simp
  next
    case False
    have disj: "set ps \<inter> fst ` set out = {}" using Cons.prems(3) by auto
    have "find_intersects_loop sh (PyList xs) (p # ps) out =
          find_intersects_loop sh (PyList xs) ps out"
      unfolding p using False
      by (simp add: gi gj del: getitem.simps)
    also note Cons.IH [OF rest dps disj]
    finally show ?thesis unfolding p using False by simp
  qed
qed

lemma min_max_inj:
  "j \<noteq> ind \<Longrightarrow> j' \<noteq> ind \<Longrightarrow> (min ind j, max ind j) = (min ind j', max ind j') \<Longrightarrow> j = (j'::int)"
  by (auto simp: min_def max_def split: if_splits)

lemma find_line_intersects_loop_PyList:
  assumes "0 \<le> ind" "ind < int (length xs)"
    and "\<And>j. j \<in> set js \<Longrightarrow> 0 \<le> j \<and> j < int (length xs)"
    and "distinct js"
    and "\<And>j. j \<in> set js \<Longrightarrow> j \<noteq> ind \<Longrightarrow> (min ind j, max ind j) \<notin> fst ` set out"
  shows "find_line_intersects_loop sh ind (PyList xs) js out =
         Inr (out @ map (\<lambda>j. ((min ind j, max ind j), intersection sh (xs ! nat ind) (xs ! nat j)))
                      (filter (\<lambda>j. j \<noteq> ind \<and> intersects sh (xs ! nat ind) (xs ! nat j)) js))"
  using assms(3-5)
proof (induction js arbitrary: out)
  case Nil
  then show ?case by simp
next
  case (Cons j js)
  have gi: "getitem (PyList xs) ind = Inr (xs ! nat ind)" using assms(1,2) by simp
  have gj: "getitem (PyList xs) j = Inr (xs ! nat j)" using Cons.prems(1) [of j] by simp
  have rest: "\<And>a. a \<in> set js \<Longrightarrow> 0 \<le> a \<and> a < int (length xs)"
    by (rule Cons.prems(1)) simp
  have djs: "distinct js" and notin: "j \<notin> set js" using Cons.prems(2) by simp_all
  have keep: "\<And>a. a \<in> set js \<Longrightarrow> a \<noteq> ind \<Longrightarrow> (min ind a, max ind a) \<notin> fst ` set out"
    by (rule Cons.prems(3)) simp_all
  show ?case
  proof (cases "j \<noteq> ind \<and> intersects sh (xs ! nat ind) (xs ! nat j)")
    case True
    let ?v = "intersection sh (xs ! nat ind) (xs ! nat j)"
    let ?out1 = "out @ [((min ind j, max ind j), ?v)]"
    have fresh: "(min ind j, max ind j) \<notin> fst ` set out"
      using Cons.prems(3) [of j] True by simp
    have keep1: "\<And>a. a \<in> set js \<Longrightarrow> a \<noteq> ind \<Longrightarrow> (min ind a, max ind a) \<notin> fst ` set ?out1"
    proof -
      fix a assume a: "a \<in> set js" "a \<noteq> ind"
      with notin have "a \<noteq> j" by auto
      with a True have "(min ind a, max ind a) \<noteq> (min ind j, max ind j)"
        using min_max_inj [of a ind j] by blast
      with keep [OF a] show "(min ind a, max ind a) \<notin> fst ` set ?out1" by auto
    qed
    have "find_line_intersects_loop sh ind (PyList xs) (j # js) out =
          find_line_intersects_loop sh ind (PyList xs) js ?out1"
    proof (cases "ind < j")
      case lt: True
      then have k: "min ind j = ind" "max ind j = j" by simp_all
      show ?thesis using True lt fresh unfolding k
        by (simp add: gi gj update_fresh del: getitem.simps)
    next
      case ge: False
      with True have k: "min ind j = j" "max ind j = ind" by simp_all
      show ?thesis using True ge fresh unfolding k
        by (simp add: gi gj update_fresh del: getitem.simps)
    qed
    also note Cons.IH [OF rest djs keep1]
    finally show ?thesis using True by simp
  next
    case False
    have "find_line_intersects_loop sh ind (PyList xs) (j # js) out =
          find_line_intersects_loop sh ind (PyList xs) js out"
      using False by (auto simp add: gi gj simp del: getitem.simps)
    also note Cons.IH [OF rest djs keep]
    finally show ?thesis using False by auto
  qed
qed


lemma filter_eq_upto: "filter (\<lambda>b. b = i) [l..u] = (if l \<le> i \<and> i \<le> u then [i] else [])"
proof (cases "l \<le> i \<and> i \<le> u")
  case True
  then have "[l..u] = [l..i - 1] @ i # [i + 1..u]" by (simp add: upto_split3)
  moreover have "filter (\<lambda>b. b = i) [l..i - 1] = []" by (auto simp: filter_empty_conv)
  moreover have "filter (\<lambda>b. b = i) [i + 1..u] = []" by (auto simp: filter_empty_conv)
  ultimately show ?thesis using True by simp
next
  case False
  then have "filter (\<lambda>b. b = i) [l..u] = []" by (auto simp: filter_empty_conv)
  with False show ?thesis by simp
qed

lemma filter_row:
  "filter (\<lambda>(a, b). a = i \<or> b = i) (map (Pair a) [a + 1..n - 1]) =
     (if a = i then map (Pair i) [i + 1..n - 1]
      else if a < i \<and> i < n then [(a, i)] else [])"
proof (cases "a = i")
  case True
  then show ?thesis by (simp add: filter_map comp_def)
next
  case False
  then have "filter (\<lambda>(a, b). a = i \<or> b = i) (map (Pair a) [a + 1..n - 1])
      = map (Pair a) (filter (\<lambda>b. b = i) [a + 1..n - 1])"
    by (simp add: filter_map comp_def)
  with False show ?thesis by (auto simp: filter_eq_upto)
qed

lemma concat_empties: "(\<And>x. x \<in> set xs \<Longrightarrow> f x = []) \<Longrightarrow> concat (map f xs) = []"
  by (induction xs) simp_all

lemma filter_triu_indices:
  assumes "0 \<le> i" "i < n"
  shows "filter (\<lambda>(a, b). a = i \<or> b = i) (triu_indices n) =
         map (\<lambda>j. (min i j, max i j)) (filter (\<lambda>j. j \<noteq> i) [0..n - 1])"
proof -
  let ?P = "\<lambda>(a, b). a = i \<or> b = i"
  let ?row = "\<lambda>a. map (Pair a) [a + 1..n - 1]"
  have split: "[0..n - 1] = [0..i - 1] @ i # [i + 1..n - 1]"
    using assms by (simp add: upto_split3)
  have low: "concat (map (\<lambda>a. filter ?P (?row a)) [0..i - 1]) = map (\<lambda>a. (a, i)) [0..i - 1]"
  proof -
    have eq: "map (\<lambda>a. filter ?P (?row a)) [0..i - 1] = map (\<lambda>a. [(a, i)]) [0..i - 1]"
      using assms by (intro map_cong refl) (simp add: filter_row)
    show ?thesis unfolding eq by simp
  qed
  have high: "concat (map (\<lambda>a. filter ?P (?row a)) [i + 1..n - 1]) = []"
    by (rule concat_empties) (simp add: filter_row)
  have lhs: "filter ?P (triu_indices n) = map (\<lambda>a. (a, i)) [0..i - 1] @ map (Pair i) [i + 1..n - 1]"
    unfolding triu_indices_def filter_concat map_map comp_def split
    using low high by (simp add: filter_row)
  have f1: "filter (\<lambda>j. j \<noteq> i) [0..i - 1] = [0..i - 1]" by (auto simp: filter_id_conv)
  have f2: "filter (\<lambda>j. j \<noteq> i) [i + 1..n - 1] = [i + 1..n - 1]" by (auto simp: filter_id_conv)
  have m1: "map (\<lambda>j. (min i j, max i j)) [0..i - 1] = map (\<lambda>a. (a, i)) [0..i - 1]"
    by (intro map_cong refl) (auto simp: min_def max_def)
  have m2: "map (\<lambda>j. (min i j, max i j)) [i + 1..n - 1] = map (Pair i) [i + 1..n - 1]"
    by (intro map_cong refl) (auto simp: min_def max_def)
  show ?thesis unfolding lhs split by (simp add: f1 f2 m1 m2)
qed

lemma box_intersects_sym: "box_intersects a b = box_intersects b a"
  unfolding box_intersects_def by (auto simp: max.commute min.commute split: prod.splits)

lemma box_intersection_sym: "box_intersection a b = box_intersection b a"
  unfolding box_intersection_def by (auto simp: max.commute min.commute split: prod.splits)

text \<open>
  C10. The claim: for a list of lines and an index \<open>i\<close> of it,
  \<^verbatim>\<open>find_line_intersects(i, lines)\<close> is the restriction of
  \<^verbatim>\<open>find_intersects(lines)\<close> to the key pairs that contain \<open>i\<close>, with the same
  intersection for each pair. As stated it fails: for a pair \<open>(j, i)\<close> with \<open>j < i\<close>,
  \<^verbatim>\<open>find_intersects\<close> records \<^verbatim>\<open>lines[j].intersection(lines[i])\<close> and
  \<^verbatim>\<open>find_line_intersects\<close> records \<^verbatim>\<open>lines[i].intersection(lines[j])\<close>, and a
  geometry may answer the two differently (\<open>find_line_intersects_differs\<close> below).
  What holds: when, on the lines of the list, \<^verbatim>\<open>intersects\<close> and
  \<^verbatim>\<open>intersection\<close> give the same answer for \<open>(a, b)\<close> and \<open>(b, a)\<close> (the hypothesis
  \<open>sym\<close>), both functions return and \<^verbatim>\<open>find_line_intersects(i, lines)\<close> is that
  restriction: the same pairs with the same intersections, in the same order.
\<close>

theorem find_line_intersects_restricts:
  assumes sym:
      "\<And>a b. a \<in> set xs \<Longrightarrow> b \<in> set xs \<Longrightarrow> intersects sh a b = intersects sh b a"
      "\<And>a b. a \<in> set xs \<Longrightarrow> b \<in> set xs \<Longrightarrow> intersection sh a b = intersection sh b a"
    and i: "0 \<le> i" "i < int (length xs)"
  shows "\<exists>out. find_intersects sh (PyList xs) = Inr out \<and>
               find_line_intersects sh i (PyList xs) = Inr (restrict_to_index i out)"
proof -
  let ?n = "int (length xs)"
  let ?F = "\<lambda>(a, b). ((a, b), intersection sh (xs ! nat a) (xs ! nat b))"
  let ?P = "\<lambda>(a, b). intersects sh (xs ! nat a) (xs ! nat b)"
  let ?C = "\<lambda>(a, b). a = i \<or> b = i"
  let ?K = "\<lambda>j. (min i j, max i j)"
  let ?J = "filter (\<lambda>j. j \<noteq> i) [0..?n - 1]"
  let ?out = "map ?F (filter ?P (triu_indices ?n))"
  have fi: "find_intersects sh (PyList xs) = Inr ?out"
    unfolding find_intersects_def
    using find_intersects_loop_PyList [of "triu_indices ?n" xs "[]" sh]
    by (simp add: set_triu_indices distinct_triu_indices)
  have fli: "find_line_intersects sh i (PyList xs) =
      Inr (map (\<lambda>j. (?K j, intersection sh (xs ! nat i) (xs ! nat j)))
             (filter (\<lambda>j. j \<noteq> i \<and> intersects sh (xs ! nat i) (xs ! nat j)) [0..?n - 1]))"
    unfolding find_line_intersects_def
    using find_line_intersects_loop_PyList [of i xs "[0..?n - 1]" "[]" sh] i
    by simp
  have mem: "xs ! nat j \<in> set xs" if "j \<in> set ?J" for j
  proof -
    from that have "nat j < length xs" by auto
    then show ?thesis by (rule nth_mem)
  qed
  have memi: "xs ! nat i \<in> set xs"
  proof -
    from i have "nat i < length xs" by auto
    then show ?thesis by (rule nth_mem)
  qed
  have PK: "?P (?K j) = intersects sh (xs ! nat i) (xs ! nat j)" if "j \<in> set ?J" for j
    using sym(1) [OF mem [OF that] memi] by (auto simp: min_def max_def)
  have FK: "?F (?K j) = (?K j, intersection sh (xs ! nat i) (xs ! nat j))" if "j \<in> set ?J" for j
    using sym(2) [OF mem [OF that] memi] by (auto simp: min_def max_def)
  have "restrict_to_index i ?out = map ?F (filter ?P (filter ?C (triu_indices ?n)))"
  proof -
    have "restrict_to_index i ?out = map ?F (filter ?C (filter ?P (triu_indices ?n)))"
      unfolding restrict_to_index_def filter_map
      by (intro arg_cong [where f = "map ?F"] filter_cong refl) auto
    also have "filter ?C (filter ?P (triu_indices ?n)) = filter ?P (filter ?C (triu_indices ?n))"
      by (simp add: conj_commute)
    finally show ?thesis .
  qed
  also have "\<dots> = map ?F (filter ?P (map ?K ?J))"
    using filter_triu_indices [OF i] by simp
  also have "\<dots> = map (\<lambda>j. ?F (?K j)) (filter (\<lambda>j. ?P (?K j)) ?J)"
    by (simp add: filter_map comp_def)
  also have "filter (\<lambda>j. ?P (?K j)) ?J = filter (\<lambda>j. intersects sh (xs ! nat i) (xs ! nat j)) ?J"
    by (rule filter_cong [OF refl]) (rule PK)
  also have "map (\<lambda>j. ?F (?K j)) (filter (\<lambda>j. intersects sh (xs ! nat i) (xs ! nat j)) ?J)
      = map (\<lambda>j. (?K j, intersection sh (xs ! nat i) (xs ! nat j)))
          (filter (\<lambda>j. intersects sh (xs ! nat i) (xs ! nat j)) ?J)"
    by (rule map_cong [OF refl]) (rule FK, simp)
  also have "filter (\<lambda>j. intersects sh (xs ! nat i) (xs ! nat j)) ?J
      = filter (\<lambda>j. j \<noteq> i \<and> intersects sh (xs ! nat i) (xs ! nat j)) [0..?n - 1]"
    by (simp add: conj_commute)
  finally show ?thesis using fi fli by simp
qed

theorem find_line_intersects_restricts_witness:
  "(0 :: int) \<le> 2 \<and> 2 < int (length [[(0, 1), (4, 1)], [(1, 0), (1, 2)], [(3, 0), (3, 2 :: real)]]) \<and>
   find_intersects box_shapely (PyList [[(0, 1), (4, 1)], [(1, 0), (1, 2)], [(3, 0), (3, 2)]])
     = Inr [((0, 1), (1, 1)), ((0, 2), (3, 1))] \<and>
   find_line_intersects box_shapely 2 (PyList [[(0, 1), (4, 1)], [(1, 0), (1, 2)], [(3, 0), (3, 2)]])
     = Inr (restrict_to_index 2 [((0, 1), (1, 1)), ((0, 2), (3, 1))]) \<and>
   restrict_to_index 2 [((0, 1), (1 :: real, 1 :: real)), ((0, 2), (3, 1))] = [((0, 2), (3, 1))]"
proof -
  let ?xs = "[[(0, 1), (4, 1)], [(1, 0), (1, 2)], [(3, 0), (3, 2 :: real)]]"
  have s1: "\<And>a b. a \<in> set ?xs \<Longrightarrow> b \<in> set ?xs \<Longrightarrow>
      intersects box_shapely a b = intersects box_shapely b a"
    by (simp only: box_shapely_def shapely.simps box_intersects_sym)
  have s2: "\<And>a b. a \<in> set ?xs \<Longrightarrow> b \<in> set ?xs \<Longrightarrow>
      intersection box_shapely a b = intersection box_shapely b a"
    by (simp only: box_shapely_def shapely.simps box_intersection_sym)
  have i: "(0 :: int) \<le> 2" "2 < int (length ?xs)" by simp_all
  have fi: "find_intersects box_shapely (PyList ?xs) = Inr [((0, 1), (1, 1)), ((0, 2), (3, 1))]"
    by (simp add: find_intersects_def triu_indices_def upto_0_2
        box_shapely_def box_intersects_def box_intersection_def)
  from find_line_intersects_restricts [of ?xs box_shapely 2, OF s1 s2 i] fi
  show ?thesis by (simp add: restrict_to_index_def)
qed

text \<open>
  The claim as stated, refuted: two collinear lines that overlap between \<open>(1, 0)\<close> and
  \<open>(2, 0)\<close> and run in opposite directions. \<^verbatim>\<open>find_intersects\<close> asks line \<open>0\<close>,
  \<^verbatim>\<open>find_line_intersects(1, lines)\<close> asks line \<open>1\<close>, and the two record the common
  part in opposite directions under the same key \<open>(0, 1)\<close>.
\<close>

lemma upto_0_1: "[0..(1::int)] = [0, 1]" "[1..(1::int)] = [1]" "[2..(1::int)] = []"
  by (simp_all add: upto.simps)

theorem find_line_intersects_differs:
  "find_intersects directed_shapely (PyList [[(0, 0), (2, 0)], [(3, 0), (1, 0)]])
     = Inr [((0, 1), [(1, 0), (2, 0)])] \<and>
   find_line_intersects directed_shapely 1 (PyList [[(0, 0), (2, 0)], [(3, 0), (1, 0)]])
     = Inr [((0, 1), [(2, 0), (1, 0)])] \<and>
   \<not> (\<exists>out. find_intersects directed_shapely (PyList [[(0, 0), (2, 0)], [(3, 0), (1, 0)]])
                = Inr out \<and>
              find_line_intersects directed_shapely 1 (PyList [[(0, 0), (2, 0)], [(3, 0), (1, 0)]])
                = Inr (restrict_to_index 1 out))"
proof -
  have a: "find_intersects directed_shapely (PyList [[(0, 0), (2, 0)], [(3, 0), (1, 0)]])
      = Inr [((0, 1), [(1, 0), (2, 0)])]"
    by (simp add: find_intersects_def triu_indices_def upto_0_1 directed_shapely_def
        box_intersects_def directed_intersection_def)
  have b: "find_line_intersects directed_shapely 1 (PyList [[(0, 0), (2, 0)], [(3, 0), (1, 0)]])
      = Inr [((0, 1), [(2, 0), (1, 0)])]"
    by (simp add: find_line_intersects_def upto_0_1 directed_shapely_def
        box_intersects_def directed_intersection_def)
  have c: "restrict_to_index 1 [((0 :: int, 1 :: int), [(1 :: real, 0 :: real), (2, 0)])]
      = [((0, 1), [(1, 0), (2, 0)])]"
    by (simp add: restrict_to_index_def)
  show ?thesis unfolding a b using c by simp
qed

subsection \<open>\<^verbatim>\<open>conductance_matrix\<close>\<close>

lemma fun_upd_same_value: "f k = v \<Longrightarrow> f = f(k := v)"
  by auto

lemma index_in_range: "0 \<le> i \<Longrightarrow> i < n \<Longrightarrow> index n i = Inr i"
  by (simp add: index_def)

lemma dok_setitem_in_range:
  assumes "shape G = (n, m)" "0 \<le> i" "i < n" "0 \<le> j" "j < m"
  shows "\<exists>G'. dok_setitem G i j x = Inr G' \<and> shape G' = (n, m) \<and>
              dok_value G' = (dok_value G)((i, j) := x)"
proof -
  let ?G' = "G\<lparr>entries := (if x \<noteq> 0 then AList.update (i, j) x (entries G)
                                   else AList.delete (i, j) (entries G))\<rparr>"
  have "dok_setitem G i j x = Inr ?G'"
    using assms by (simp add: dok_setitem_def index_in_range)
  moreover have "shape ?G' = (n, m)" using assms by simp
  moreover have "dok_value ?G' = (dok_value G)((i, j) := x)"
    by (rule ext) (simp add: dok_value_def update_conv' delete_conv' fun_upd_def)
  ultimately show ?thesis by blast
qed

lemma dok_getitem_in_range:
  "shape G = (n, m) \<Longrightarrow> 0 \<le> i \<Longrightarrow> i < n \<Longrightarrow> 0 \<le> j \<Longrightarrow> j < m \<Longrightarrow>
   dok_getitem G i j = Inr (dok_value G (i, j))"
  by (simp add: dok_getitem_def index_in_range)

lemma diagonal_terms_eq:
  "diagonal_terms rs = Inr (map (\<lambda>r. 1 / r) (filter (\<lambda>r. r \<noteq> 0) rs))"
  by (induction rs) (simp_all add: py_div_def)

text \<open>One cell of the loop: what it leaves in the matrix, when it does not raise.\<close>

lemma conductance_row_step:
  assumes sh: "shape G = (n, n)" and i: "0 \<le> i" "i < n" and j: "0 \<le> j" "j < n"
    and run: "conductance_row N d i (j # js) G = Inr G'"
    and zero: "dok_value G (i, j) = 0"
  shows "\<exists>G1. conductance_row N d i js G1 = Inr G' \<and> shape G1 = (n, n) \<and>
              dok_value G1 = (dok_value G)((i, j) := conductance_entry N d i j)"
proof -
  consider (drain) "i = j" "i = d" | (diag) "i = j" "i \<noteq> d"
    | (off) "i \<noteq> j" "i \<noteq> d" | (skip) "i \<noteq> j" "i = d" by blast
  then show ?thesis
  proof cases
    case drain
    from dok_setitem_in_range [OF sh i j, of 1] obtain G1 where
      s1: "dok_setitem G i j 1 = Inr G1" "shape G1 = (n, n)"
          "dok_value G1 = (dok_value G)((i, j) := 1)" by blast
    from run drain s1(1) have "conductance_row N d i js G1 = Inr G'" by simp
    with s1 drain show ?thesis by (auto simp: conductance_entry_def)
  next
    case diag
    from run diag obtain rs where rs: "edges_of N i = Inr rs"
      by (auto split: sum.splits)
    then have inc: "rs = incident_resistances N i"
      by (auto simp: edges_of_def split: if_splits)
    let ?s = "\<Sum>r\<leftarrow>filter (\<lambda>r. r \<noteq> 0) rs. 1 / r"
    from dok_setitem_in_range [OF sh i j, of ?s] obtain G1 where
      s1: "dok_setitem G i j ?s = Inr G1" "shape G1 = (n, n)"
          "dok_value G1 = (dok_value G)((i, j) := ?s)" by blast
    have g1: "dok_getitem G1 i j = Inr ?s"
      using dok_getitem_in_range [OF s1(2) i j] s1(3) by simp
    from dok_setitem_in_range [OF s1(2) i j, of "?s + 1 / 10 ^ 8"] obtain G2 where
      s2: "dok_setitem G1 i j (?s + 1 / 10 ^ 8) = Inr G2" "shape G2 = (n, n)"
          "dok_value G2 = (dok_value G1)((i, j) := ?s + 1 / 10 ^ 8)" by blast
    from run diag rs s1(1) g1 s2(1) have "conductance_row N d i js G2 = Inr G'"
      by (simp add: diagonal_terms_eq)
    moreover have "dok_value G2 = (dok_value G)((i, j) := conductance_entry N d i j)"
      using s2(3) s1(3) diag inc by (simp add: conductance_entry_def)
    ultimately show ?thesis using s2(2) by blast
  next
    case off
    show ?thesis
    proof (cases "get_edge_data N i j")
      case None
      with run off have "conductance_row N d i js G = Inr G'" by simp
      moreover have "dok_value G = (dok_value G)((i, j) := conductance_entry N d i j)"
        using None off zero by (intro fun_upd_same_value) (simp add: conductance_entry_def)
      ultimately show ?thesis using sh by blast
    next
      case (Some r)
      with run off have r0: "r \<noteq> 0" by (auto simp: py_div_def split: if_splits)
      from dok_setitem_in_range [OF sh i j, of "- 1 / r"] obtain G1 where
        s1: "dok_setitem G i j (- 1 / r) = Inr G1" "shape G1 = (n, n)"
            "dok_value G1 = (dok_value G)((i, j) := - 1 / r)" by blast
      from run off Some r0 s1(1) have "conductance_row N d i js G1 = Inr G'"
        by (simp add: py_div_def)
      moreover have "dok_value G1 = (dok_value G)((i, j) := conductance_entry N d i j)"
        using s1(3) Some off by (simp add: conductance_entry_def)
      ultimately show ?thesis using s1(2) by blast
    qed
  next
    case skip
    with run have "conductance_row N d i js G = Inr G'" by simp
    moreover have "dok_value G = (dok_value G)((i, j) := conductance_entry N d i j)"
      using skip zero by (intro fun_upd_same_value) (simp add: conductance_entry_def)
    ultimately show ?thesis using sh by blast
  qed
qed

lemma conductance_row_result:
  assumes "shape G = (n, n)" "0 \<le> i" "i < n"
    and "\<And>j. j \<in> set js \<Longrightarrow> 0 \<le> j \<and> j < n" and "distinct js"
    and "conductance_row N d i js G = Inr G'"
    and "\<And>j. j \<in> set js \<Longrightarrow> dok_value G (i, j) = 0"
  shows "shape G' = (n, n) \<and>
         (\<forall>a b. dok_value G' (a, b) =
            (if a = i \<and> b \<in> set js then conductance_entry N d i b else dok_value G (a, b)))"
  using assms(1,4-7)
proof (induction js arbitrary: G)
  case Nil
  then show ?case by simp
next
  case (Cons j js)
  have j: "0 \<le> j" "j < n" using Cons.prems(2) [of j] by simp_all
  have z: "dok_value G (i, j) = 0" using Cons.prems(5) [of j] by simp
  from conductance_row_step [OF Cons.prems(1) assms(2,3) j Cons.prems(4) z] obtain G1 where
    G1: "conductance_row N d i js G1 = Inr G'" "shape G1 = (n, n)"
        "dok_value G1 = (dok_value G)((i, j) := conductance_entry N d i j)" by blast
  have rng: "\<And>b. b \<in> set js \<Longrightarrow> 0 \<le> b \<and> b < n" by (rule Cons.prems(2)) simp
  have d: "distinct js" and nj: "j \<notin> set js" using Cons.prems(3) by simp_all
  have z1: "\<And>b. b \<in> set js \<Longrightarrow> dok_value G1 (i, b) = 0"
  proof -
    fix b assume b: "b \<in> set js"
    with nj have "b \<noteq> j" by auto
    then show "dok_value G1 (i, b) = 0" using G1(3) Cons.prems(5) [of b] b by simp
  qed
  from Cons.IH [OF G1(2) rng d G1(1) z1] G1(3) nj show ?case by auto
qed

lemma conductance_rows_result:
  assumes "shape G = (n, n)"
    and "\<And>i. i \<in> set rows \<Longrightarrow> 0 \<le> i \<and> i < n" and "distinct rows"
    and "\<And>j. j \<in> set js \<Longrightarrow> 0 \<le> j \<and> j < n" and "distinct js"
    and "conductance_rows N d rows js G = Inr G'"
    and "\<And>i j. i \<in> set rows \<Longrightarrow> j \<in> set js \<Longrightarrow> dok_value G (i, j) = 0"
  shows "shape G' = (n, n) \<and>
         (\<forall>a b. dok_value G' (a, b) =
            (if a \<in> set rows \<and> b \<in> set js then conductance_entry N d a b
             else dok_value G (a, b)))"
  using assms(1-3,6,7)
proof (induction rows arbitrary: G)
  case Nil
  then show ?case by simp
next
  case (Cons i rows)
  from Cons.prems(4) obtain G1 where
    r1: "conductance_row N d i js G = Inr G1" and
    rest: "conductance_rows N d rows js G1 = Inr G'"
    by (auto split: sum.splits)
  have i: "0 \<le> i" "i < n" using Cons.prems(2) [of i] by simp_all
  have z: "\<And>j. j \<in> set js \<Longrightarrow> dok_value G (i, j) = 0" by (rule Cons.prems(5)) simp_all
  from conductance_row_result [OF Cons.prems(1) i assms(4,5) r1 z] have
    G1: "shape G1 = (n, n)"
        "\<And>a b. dok_value G1 (a, b) =
            (if a = i \<and> b \<in> set js then conductance_entry N d i b else dok_value G (a, b))"
    by simp_all
  have rng: "\<And>a. a \<in> set rows \<Longrightarrow> 0 \<le> a \<and> a < n" by (rule Cons.prems(2)) simp
  have d: "distinct rows" and ni: "i \<notin> set rows" using Cons.prems(3) by simp_all
  have z1: "\<And>a b. a \<in> set rows \<Longrightarrow> b \<in> set js \<Longrightarrow> dok_value G1 (a, b) = 0"
  proof -
    fix a b assume ab: "a \<in> set rows" "b \<in> set js"
    with ni have "a \<noteq> i" by auto
    then show "dok_value G1 (a, b) = 0" using G1(2) [of a b] Cons.prems(5) [of a b] ab by simp
  qed
  from Cons.IH [OF G1(1) rng d rest z1] G1(2) ni show ?case by auto
qed

lemma conductance_matrix_entries:
  assumes "conductance_matrix N d = Inr G" "0 \<le> i" "i < wire_num N" "0 \<le> j" "j < wire_num N"
  shows "shape G = (wire_num N, wire_num N)" "dok_getitem G i j = Inr (conductance_entry N d i j)"
proof -
  let ?n = "wire_num N"
  let ?G0 = "\<lparr>shape = (?n, ?n), entries = []\<rparr>"
  from assms have run: "conductance_rows N d [0..?n - 1] [0..?n - 1] ?G0 = Inr G"
    by (simp add: conductance_matrix_def new_dok_matrix_def Let_def split: if_splits)
  have r: "shape G = (?n, ?n) \<and>
         (\<forall>a b. dok_value G (a, b) =
            (if a \<in> set [0..?n - 1] \<and> b \<in> set [0..?n - 1] then conductance_entry N d a b
             else dok_value ?G0 (a, b)))"
    by (rule conductance_rows_result [OF _ _ _ _ _ run]) (simp_all add: dok_value_def)
  then show "shape G = (wire_num N, wire_num N)" by simp
  with r assms show "dok_getitem G i j = Inr (conductance_entry N d i j)"
    by (simp add: dok_getitem_in_range)
qed


text \<open>One cell of the loop: it raises for a zero resistance off the diagonal, or for a
  missing node on the diagonal, and goes on otherwise.\<close>

lemma conductance_row_cell:
  assumes sh: "shape G = (n, n)" and i: "0 \<le> i" "i < n" and j: "0 \<le> j" "j < n"
  shows "(i \<noteq> j \<and> i \<noteq> d \<and> get_edge_data N i j = Some 0 \<and>
            conductance_row N d i (j # js) G = Inl ZeroDivisionError) \<or>
         (i = j \<and> i \<noteq> d \<and> i \<notin> fst ` set (nodes N) \<and>
            conductance_row N d i (j # js) G = Inl NetworkXError) \<or>
         (\<not> (i \<noteq> j \<and> i \<noteq> d \<and> get_edge_data N i j = Some 0) \<and>
          \<not> (i = j \<and> i \<noteq> d \<and> i \<notin> fst ` set (nodes N)) \<and>
          (\<exists>G1. shape G1 = (n, n) \<and>
             conductance_row N d i (j # js) G = conductance_row N d i js G1))"
proof -
  consider (drain) "i = j" "i = d" | (diag) "i = j" "i \<noteq> d"
    | (off) "i \<noteq> j" "i \<noteq> d" | (skip) "i \<noteq> j" "i = d" by blast
  then show ?thesis
  proof cases
    case drain
    from dok_setitem_in_range [OF sh i j, of 1] obtain G1 where
      s1: "dok_setitem G i j 1 = Inr G1" "shape G1 = (n, n)" by blast
    with drain show ?thesis by auto
  next
    case diag
    show ?thesis
    proof (cases "i \<in> fst ` set (nodes N)")
      case False
      with diag show ?thesis by (simp add: edges_of_def)
    next
      case True
      let ?s = "\<Sum>r\<leftarrow>filter (\<lambda>r. r \<noteq> 0) (incident_resistances N i). 1 / r"
      from dok_setitem_in_range [OF sh i j, of ?s] obtain G1 where
        s1: "dok_setitem G i j ?s = Inr G1" "shape G1 = (n, n)"
            "dok_value G1 = (dok_value G)((i, j) := ?s)" by blast
      have g1: "dok_getitem G1 i j = Inr ?s"
        using dok_getitem_in_range [OF s1(2) i j] s1(3) by simp
      from dok_setitem_in_range [OF s1(2) i j, of "?s + 1 / 10 ^ 8"] obtain G2 where
        s2: "dok_setitem G1 i j (?s + 1 / 10 ^ 8) = Inr G2" "shape G2 = (n, n)" by blast
      have "conductance_row N d i (j # js) G = conductance_row N d i js G2"
        using diag True s1(1) g1 s2(1) by (simp add: edges_of_def diagonal_terms_eq)
      with s2(2) diag True show ?thesis by blast
    qed
  next
    case off
    show ?thesis
    proof (cases "get_edge_data N i j")
      case None
      with off sh show ?thesis by auto
    next
      case (Some r)
      show ?thesis
      proof (cases "r = 0")
        case True
        with off Some show ?thesis by (simp add: py_div_def)
      next
        case False
        from dok_setitem_in_range [OF sh i j, of "- 1 / r"] obtain G1 where
          s1: "dok_setitem G i j (- 1 / r) = Inr G1" "shape G1 = (n, n)" by blast
        have "conductance_row N d i (j # js) G = conductance_row N d i js G1"
          using off Some False s1(1) by (simp add: py_div_def)
        with s1(2) off Some False show ?thesis by auto
      qed
    qed
  next
    case skip
    with sh show ?thesis by auto
  qed
qed

text \<open>How a row ends: a matrix of the same shape, or one of the two exceptions with its cause.\<close>

lemma conductance_row_outcome:
  assumes "shape G = (n, n)" "0 \<le> i" "i < n" "\<forall>j\<in>set js. 0 \<le> j \<and> j < n"
  shows "(\<exists>G'. conductance_row N d i js G = Inr G' \<and> shape G' = (n, n) \<and>
            \<not> (\<exists>j\<in>set js. i \<noteq> j \<and> i \<noteq> d \<and> get_edge_data N i j = Some 0) \<and>
            \<not> (i \<in> set js \<and> i \<noteq> d \<and> i \<notin> fst ` set (nodes N))) \<or>
         (conductance_row N d i js G = Inl ZeroDivisionError \<and>
            (\<exists>j\<in>set js. i \<noteq> j \<and> i \<noteq> d \<and> get_edge_data N i j = Some 0)) \<or>
         (conductance_row N d i js G = Inl NetworkXError \<and>
            i \<in> set js \<and> i \<noteq> d \<and> i \<notin> fst ` set (nodes N))"
  using assms(1,4)
proof (induction js arbitrary: G)
  case Nil
  then show ?case by simp
next
  case (Cons j js)
  have j: "0 \<le> j" "j < n" using Cons.prems(2) by simp_all
  have rng: "\<forall>b\<in>set js. 0 \<le> b \<and> b < n" using Cons.prems(2) by simp
  from conductance_row_cell [OF Cons.prems(1) assms(2,3) j, of d N js]
  consider
    (zero) "i \<noteq> j" "i \<noteq> d" "get_edge_data N i j = Some 0"
           "conductance_row N d i (j # js) G = Inl ZeroDivisionError"
  | (node) "i = j" "i \<noteq> d" "i \<notin> fst ` set (nodes N)"
           "conductance_row N d i (j # js) G = Inl NetworkXError"
  | (go) G1 where "\<not> (i \<noteq> j \<and> i \<noteq> d \<and> get_edge_data N i j = Some 0)"
           "\<not> (i = j \<and> i \<noteq> d \<and> i \<notin> fst ` set (nodes N))"
           "shape G1 = (n, n)"
           "conductance_row N d i (j # js) G = conductance_row N d i js G1"
    by blast
  then show ?case
  proof cases
    case zero
    then show ?thesis by auto
  next
    case node
    then show ?thesis by auto
  next
    case go
    from Cons.IH [OF go(3) rng] go(1,2) show ?thesis
      unfolding go(4) by (elim disjE exE conjE) auto
  qed
qed


lemma conductance_rows_outcome:
  assumes "shape G = (n, n)" "\<forall>i\<in>set rows. 0 \<le> i \<and> i < n" "\<forall>j\<in>set js. 0 \<le> j \<and> j < n"
  shows "(\<exists>G'. conductance_rows N d rows js G = Inr G' \<and> shape G' = (n, n) \<and>
            \<not> (\<exists>i\<in>set rows. \<exists>j\<in>set js. i \<noteq> j \<and> i \<noteq> d \<and> get_edge_data N i j = Some 0) \<and>
            \<not> (\<exists>i\<in>set rows. i \<in> set js \<and> i \<noteq> d \<and> i \<notin> fst ` set (nodes N))) \<or>
         (conductance_rows N d rows js G = Inl ZeroDivisionError \<and>
            (\<exists>i\<in>set rows. \<exists>j\<in>set js. i \<noteq> j \<and> i \<noteq> d \<and> get_edge_data N i j = Some 0)) \<or>
         (conductance_rows N d rows js G = Inl NetworkXError \<and>
            (\<exists>i\<in>set rows. i \<in> set js \<and> i \<noteq> d \<and> i \<notin> fst ` set (nodes N)))"
  using assms(1,2)
proof (induction rows arbitrary: G)
  case Nil
  then show ?case by simp
next
  case (Cons i rows)
  have i: "0 \<le> i" "i < n" using Cons.prems(2) by simp_all
  have rng: "\<forall>a\<in>set rows. 0 \<le> a \<and> a < n" using Cons.prems(2) by simp
  from conductance_row_outcome [OF Cons.prems(1) i assms(3), where d = d and N = N]
  consider
    (ok) G1 where "conductance_row N d i js G = Inr G1" "shape G1 = (n, n)"
        "\<not> (\<exists>j\<in>set js. i \<noteq> j \<and> i \<noteq> d \<and> get_edge_data N i j = Some 0)"
        "\<not> (i \<in> set js \<and> i \<noteq> d \<and> i \<notin> fst ` set (nodes N))"
  | (zero) "conductance_row N d i js G = Inl ZeroDivisionError"
        "\<exists>j\<in>set js. i \<noteq> j \<and> i \<noteq> d \<and> get_edge_data N i j = Some 0"
  | (node) "conductance_row N d i js G = Inl NetworkXError"
        "i \<in> set js \<and> i \<noteq> d \<and> i \<notin> fst ` set (nodes N)"
    by blast
  then show ?case
  proof cases
    case ok
    have step: "conductance_rows N d (i # rows) js G = conductance_rows N d rows js G1"
      using ok(1) by simp
    from Cons.IH [OF ok(2) rng] ok(3,4) show ?thesis
      unfolding step by (elim disjE exE conjE) auto
  next
    case zero
    then show ?thesis by auto
  next
    case node
    then show ?thesis by auto
  qed
qed

lemma conductance_matrix_outcome:
  "(wire_num N < 0 \<and> conductance_matrix N d = Inl ValueError) \<or>
   (\<exists>G. conductance_matrix N d = Inr G \<and>
      \<not> (\<exists>i j. 0 \<le> i \<and> i < wire_num N \<and> 0 \<le> j \<and> j < wire_num N \<and>
               i \<noteq> j \<and> i \<noteq> d \<and> get_edge_data N i j = Some 0) \<and>
      \<not> (\<exists>i. 0 \<le> i \<and> i < wire_num N \<and> i \<noteq> d \<and> i \<notin> fst ` set (nodes N))) \<or>
   (conductance_matrix N d = Inl ZeroDivisionError \<and>
      (\<exists>i j. 0 \<le> i \<and> i < wire_num N \<and> 0 \<le> j \<and> j < wire_num N \<and>
             i \<noteq> j \<and> i \<noteq> d \<and> get_edge_data N i j = Some 0)) \<or>
   (conductance_matrix N d = Inl NetworkXError \<and>
      (\<exists>i. 0 \<le> i \<and> i < wire_num N \<and> i \<noteq> d \<and> i \<notin> fst ` set (nodes N)))"
proof (cases "wire_num N < 0")
  case True
  then show ?thesis by (simp add: conductance_matrix_def new_dok_matrix_def)
next
  case False
  let ?n = "wire_num N"
  let ?G0 = "\<lparr>shape = (?n, ?n), entries = []\<rparr>"
  have cm: "conductance_matrix N d = conductance_rows N d [0..?n - 1] [0..?n - 1] ?G0"
    using False by (simp add: conductance_matrix_def new_dok_matrix_def Let_def)
  have sh: "shape ?G0 = (?n, ?n)" by simp
  have rng: "\<forall>i\<in>set [0..?n - 1]. 0 \<le> i \<and> i < ?n" by simp
  have m: "\<And>i. i \<in> set [0..?n - 1] \<longleftrightarrow> 0 \<le> i \<and> i < ?n" by auto
  from conductance_rows_outcome [OF sh rng rng, where d = d and N = N]
  show ?thesis unfolding cm Bex_def m by blast
qed

lemma get_edge_data_sym: "get_edge_data N i j = get_edge_data N j i"
  by (simp add: get_edge_data_def min.commute max.commute)

lemma get_edge_data_nonzero:
  assumes "\<forall>r\<in>snd ` set (edges N). r \<noteq> 0"
  shows "get_edge_data N i j \<noteq> Some 0"
proof
  assume "get_edge_data N i j = Some 0"
  then have "((min i j, max i j), 0) \<in> set (edges N)"
    unfolding get_edge_data_def by (rule map_of_SomeD)
  then have "0 \<in> snd ` set (edges N)" by force
  with assms show False by blast
qed

lemma conductance_matrix_returns:
  assumes "0 \<le> wire_num N" "\<forall>i. 0 \<le> i \<and> i < wire_num N \<longrightarrow> i \<in> fst ` set (nodes N)"
    and "\<forall>r\<in>snd ` set (edges N). r \<noteq> 0"
  shows "\<exists>G. conductance_matrix N d = Inr G"
  using conductance_matrix_outcome [of N d] assms(1,2) get_edge_data_nonzero [OF assms(3)]
  by (elim disjE exE conjE) auto

lemma bridge_matrix: "conductance_matrix bridge_network 2 = Inr bridge_conductance"
  by (simp add: conductance_matrix_def new_dok_matrix_def bridge_network_def upto_0_2
      dok_setitem_def dok_getitem_def dok_value_def index_def edges_of_def
      incident_resistances_def get_edge_data_def py_div_def bridge_conductance_def)



text \<open>
  C8. When \<^verbatim>\<open>conductance_matrix\<close> returns the matrix \<open>G\<close> for the drain \<open>d\<close>, then
  \<open>G[i, j] = G[j, i]\<close> for all wire indices \<open>i \<noteq> j\<close> that both differ from \<open>d\<close>.
\<close>

theorem conductance_matrix_symmetric:
  assumes "conductance_matrix N d = Inr G" "0 \<le> i" "i < wire_num N" "0 \<le> j" "j < wire_num N"
    and "i \<noteq> j" "i \<noteq> d" "j \<noteq> d"
  shows "\<exists>x. dok_getitem G i j = Inr x \<and> dok_getitem G j i = Inr x"
  using conductance_matrix_entries(2) [OF assms(1,2,3,4,5)]
        conductance_matrix_entries(2) [OF assms(1,4,5,2,3)] assms(6-8)
  by (simp add: conductance_entry_def get_edge_data_sym [of N j i])

theorem conductance_matrix_symmetric_witness:
  "conductance_matrix bridge_network 2 = Inr bridge_conductance \<and>
   (0 :: int) \<le> 0 \<and> 0 < wire_num bridge_network \<and> (0 :: int) \<le> 1 \<and> 1 < wire_num bridge_network \<and>
   (0 :: int) \<noteq> 1 \<and> (0 :: int) \<noteq> 2 \<and> (1 :: int) \<noteq> 2 \<and>
   (\<exists>x. dok_getitem bridge_conductance 0 1 = Inr x \<and> dok_getitem bridge_conductance 1 0 = Inr x)"
proof -
  have w: "(0 :: int) \<le> 0" "0 < wire_num bridge_network" "(0 :: int) \<le> 1"
    "1 < wire_num bridge_network"
    by (simp_all add: bridge_network_def)
  from conductance_matrix_symmetric [OF bridge_matrix w] bridge_matrix w
  show ?thesis by simp
qed

text \<open>
  C9. In a network whose junction resistances are all non-zero, \<^verbatim>\<open>conductance_matrix\<close>
  never divides by zero, whatever the drain. The list comprehension of the diagonal
  never raises, whatever the resistances: its filter guards the division. The
  off-diagonal division is not guarded: with a junction of resistance \<open>0\<close> between two
  wires \<open>a < b\<close> of the network no matrix is returned, and when the wires
  \<open>0, \<dots>, wire_num - 1\<close> are nodes the call raises \<^verbatim>\<open>ZeroDivisionError\<close>. So the
  precondition is needed for the function to return.
\<close>

theorem conductance_matrix_division:
  "((\<forall>r\<in>snd ` set (edges N). r \<noteq> 0) \<longrightarrow> conductance_matrix N d \<noteq> Inl ZeroDivisionError) \<and>
   (\<exists>ts. diagonal_terms rs = Inr ts) \<and>
   (0 \<le> a \<and> a < b \<and> b < wire_num N \<and> map_of (edges N) (a, b) = Some 0 \<longrightarrow>
      (\<forall>G. conductance_matrix N d \<noteq> Inr G) \<and>
      ((\<forall>i. 0 \<le> i \<and> i < wire_num N \<longrightarrow> i \<in> fst ` set (nodes N)) \<longrightarrow>
         conductance_matrix N d = Inl ZeroDivisionError))"
proof (intro conjI impI)
  assume nz: "\<forall>r\<in>snd ` set (edges N). r \<noteq> 0"
  show "conductance_matrix N d \<noteq> Inl ZeroDivisionError"
    using conductance_matrix_outcome [of N d] get_edge_data_nonzero [OF nz]
    by (elim disjE exE conjE) auto
next
  show "\<exists>ts. diagonal_terms rs = Inr ts" by (simp add: diagonal_terms_eq)
next
  assume z: "0 \<le> a \<and> a < b \<and> b < wire_num N \<and> map_of (edges N) (a, b) = Some 0"
  then have e1: "get_edge_data N a b = Some 0" and e2: "get_edge_data N b a = Some 0"
    by (simp_all add: get_edge_data_def min_def max_def)
  have ex: "\<exists>i j. 0 \<le> i \<and> i < wire_num N \<and> 0 \<le> j \<and> j < wire_num N \<and>
               i \<noteq> j \<and> i \<noteq> d \<and> get_edge_data N i j = Some 0"
  proof (cases "a = d")
    case True
    with z e2 have "0 \<le> b \<and> b < wire_num N \<and> 0 \<le> a \<and> a < wire_num N \<and>
               b \<noteq> a \<and> b \<noteq> d \<and> get_edge_data N b a = Some 0" by auto
    then show ?thesis by blast
  next
    case False
    with z e1 have "0 \<le> a \<and> a < wire_num N \<and> 0 \<le> b \<and> b < wire_num N \<and>
               a \<noteq> b \<and> a \<noteq> d \<and> get_edge_data N a b = Some 0" by auto
    then show ?thesis by blast
  qed
  show "\<forall>G. conductance_matrix N d \<noteq> Inr G"
    using conductance_matrix_outcome [of N d] ex z by (elim disjE exE conjE) auto
  show "conductance_matrix N d = Inl ZeroDivisionError"
    if "\<forall>i. 0 \<le> i \<and> i < wire_num N \<longrightarrow> i \<in> fst ` set (nodes N)"
    using conductance_matrix_outcome [of N d] ex z that by (elim disjE exE conjE) auto
qed

theorem conductance_matrix_division_witness:
  "0 \<notin> snd ` set (edges bridge_network) \<and>
   conductance_matrix bridge_network 2 \<noteq> Inl ZeroDivisionError \<and>
   (0 :: int) \<le> 0 \<and> (0 :: int) < 1 \<and> 1 < wire_num shorted_network \<and>
   map_of (edges shorted_network) (0, 1) = Some 0 \<and>
   conductance_matrix shorted_network 2 = Inl ZeroDivisionError"
proof -
  have nz: "\<forall>r\<in>snd ` set (edges bridge_network). r \<noteq> 0"
    by (simp add: bridge_network_def)
  have z: "(0 :: int) \<le> 0 \<and> (0 :: int) < 1 \<and> 1 < wire_num shorted_network \<and>
      map_of (edges shorted_network) (0, 1) = Some 0"
    by (simp add: shorted_network_def bridge_network_def)
  have n: "\<forall>i. 0 \<le> i \<and> i < wire_num shorted_network \<longrightarrow> i \<in> fst ` set (nodes shorted_network)"
  proof (intro allI impI)
    fix i :: int assume "0 \<le> i \<and> i < wire_num shorted_network"
    then have "i = 0 \<or> i = 1 \<or> i = 2" by (auto simp: shorted_network_def bridge_network_def)
    then show "i \<in> fst ` set (nodes shorted_network)"
      by (auto simp: shorted_network_def bridge_network_def)
  qed
  from conductance_matrix_division [of bridge_network 2 "[]" 0 1] nz
  have a: "conductance_matrix bridge_network 2 \<noteq> Inl ZeroDivisionError" by blast
  from conductance_matrix_division [of shorted_network 2 "[]" 0 1] z n
  have b: "conductance_matrix shorted_network 2 = Inl ZeroDivisionError" by blast
  from a b z nz show ?thesis by (simp add: bridge_network_def)
qed

subsection \<open>Rounding to a double\<close>

lemma py_round_of_int: "py_round (of_int z) = z"
  by (simp add: py_round_def)

lemma py_round_nearest: "\<bar>of_int (py_round x) - x\<bar> \<le> 1 / 2"
  unfolding py_round_def Let_def by (auto simp: abs_if) linarith+

lemma powr_powi: "(2::real) powr (of_int k) = 2 powi k"
  by (simp add: powr_real_of_int')

lemma powr_powi_Suc: "(2::real) powr (of_int k + 1) = 2 powi (k + 1)"
  using powr_powi [of "k + 1"] by simp


lemma log2_bounds:
  assumes "0 < x"
  shows "2 powi \<lfloor>log 2 x\<rfloor> \<le> x" "x < 2 powi (\<lfloor>log 2 x\<rfloor> + 1)"
proof -
  have "\<lfloor>log 2 x\<rfloor> = \<lfloor>log 2 x\<rfloor>" ..
  then have "2 powr (of_int \<lfloor>log 2 x\<rfloor>) \<le> x \<and> x < 2 powr (of_int (\<lfloor>log 2 x\<rfloor> + 1))"
    using assms by (subst (asm) floor_log_eq_powr_iff) auto
  then show "2 powi \<lfloor>log 2 x\<rfloor> \<le> x" "x < 2 powi (\<lfloor>log 2 x\<rfloor> + 1)"
    by (simp_all add: powr_powi powr_powi_Suc)
qed


lemma binade_upper:
  assumes "x \<noteq> 0"
  shows "\<bar>x\<bar> < 2 powi (binade x + 1)"
proof -
  have "\<bar>x\<bar> < 2 powi (\<lfloor>log 2 \<bar>x\<bar>\<rfloor> + 1)" using assms by (intro log2_bounds) simp
  also have "\<dots> \<le> 2 powi (binade x + 1)"
    unfolding binade_def by (intro power_int_increasing) simp_all
  finally show ?thesis .
qed

lemma binade_lower:
  assumes "x \<noteq> 0" "- 1022 \<le> \<lfloor>log 2 \<bar>x\<bar>\<rfloor>"
  shows "2 powi binade x \<le> \<bar>x\<bar>"
proof -
  have "binade x = \<lfloor>log 2 \<bar>x\<bar>\<rfloor>" using assms(2) by (simp add: binade_def)
  then show ?thesis using log2_bounds(1) [of "\<bar>x\<bar>"] assms(1) by simp
qed

lemma binade_le:
  assumes "x \<noteq> 0" "\<bar>x\<bar> < 2 powi (e + 1)" "- 1022 \<le> e"
  shows "binade x \<le> e"
proof -
  have lo: "2 powi \<lfloor>log 2 \<bar>x\<bar>\<rfloor> \<le> \<bar>x\<bar>" using assms(1) by (intro log2_bounds) simp
  have "\<lfloor>log 2 \<bar>x\<bar>\<rfloor> < e + 1"
  proof (rule ccontr)
    assume "\<not> \<lfloor>log 2 \<bar>x\<bar>\<rfloor> < e + 1"
    then have "(2::real) powi (e + 1) \<le> 2 powi \<lfloor>log 2 \<bar>x\<bar>\<rfloor>"
      by (intro power_int_increasing) simp_all
    with lo assms(2) show False by linarith
  qed
  then show ?thesis using assms(3) by (simp add: binade_def)
qed

lemma binade_ge: "- 1022 \<le> binade x"
  by (simp add: binade_def)

text \<open>The scaled value lies below \<open>2^53\<close>, so the rounded significand is at most \<open>2^53\<close>.\<close>

lemma significand_bound:
  assumes "x \<noteq> 0"
  shows "\<bar>py_round (x / 2 powi (binade x - 52))\<bar> \<le> 2 ^ 53"
proof -
  let ?u = "(2::real) powi (binade x - 52)"
  have u: "0 < ?u" by simp
  have "\<bar>x\<bar> < 2 powi (binade x + 1)" by (rule binade_upper [OF assms])
  also have "(2::real) powi (binade x + 1) = 2 ^ 53 * ?u"
    by (simp add: power_int_add power_int_diff)
  finally have "\<bar>x / ?u\<bar> < 2 ^ 53" using u by (simp add: abs_divide pos_divide_less_eq)
  with py_round_nearest [of "x / ?u"]
  have "\<bar>real_of_int (py_round (x / ?u))\<bar> < 2 ^ 53 + 1" by linarith
  then have "real_of_int \<bar>py_round (x / ?u)\<bar> < real_of_int (2 ^ 53 + 1)" by simp
  then have "\<bar>py_round (x / ?u)\<bar> < 2 ^ 53 + 1" by (simp only: of_int_less_iff)
  then show ?thesis by simp
qed

text \<open>A number \<open>m * 2^k\<close> with a significand below \<open>2^53\<close> is a double: rounding keeps it.\<close>

lemma double_round_dyadic:
  assumes m: "\<bar>m\<bar> < 2 ^ 53" and k: "- 1074 \<le> k" "k \<le> 971"
  shows "double_round (of_int m * 2 powi k) = Finite (of_int m * 2 powi k)"
proof (cases "m = 0")
  case True
  then show ?thesis by (simp add: double_round_def)
next
  case False
  define x where "x = real_of_int m * 2 powi k"
  define e where "e = binade x"
  define u where "u = (2::real) powi (e - 52)"
  have x0: "x \<noteq> 0" using False by (simp add: x_def)
  have "\<bar>real_of_int m\<bar> < 2 ^ 53" using m
    by (metis of_int_abs of_int_less_iff of_int_numeral of_int_power)
  then have "\<bar>x\<bar> < 2 ^ 53 * 2 powi k"
    by (simp add: abs_mult x_def)
  also have "(2::real) ^ 53 * 2 powi k = 2 powi (k + 52 + 1)"
    by (simp add: power_int_add)
  finally have lt: "\<bar>x\<bar> < 2 powi (k + 52 + 1)" .
  have e: "e \<le> k + 52" unfolding e_def using k by (intro binade_le [OF x0 lt]) simp
  define j where "j = nat (k + 52 - e)"
  have j: "int j = k + 52 - e" using e by (simp add: j_def)
  have "(2::real) powi (int j) * u = 2 powi k"
    unfolding j u_def by (simp add: power_int_add [symmetric])
  then have pk: "(2::real) powi k = 2 ^ j * u" by simp
  have u0: "u \<noteq> 0" by (simp add: u_def)
  have "x / u = of_int (m * 2 ^ j)" unfolding x_def pk using u0 by simp
  then have r: "py_round (x / u) = m * 2 ^ j" by (simp only: py_round_of_int)
  have "of_int (m * 2 ^ j) * u = x" by (simp add: x_def pk)
  then have y: "of_int (py_round (x / u)) * u = x" by (simp only: r)
  have "\<bar>x\<bar> < 2 powi 1024"
  proof -
    have "(2::real) powi (k + 52 + 1) \<le> 2 powi 1024"
      using k by (intro power_int_increasing) simp_all
    with lt show ?thesis by linarith
  qed
  then have b: "\<bar>x\<bar> < 2 ^ 1024" by simp
  have "double_round x = Finite x"
    unfolding double_round_def Let_def e_def [symmetric] u_def [symmetric] y
    using x0 b by (auto simp: abs_if split: if_splits)
  then show ?thesis by (simp add: x_def)
qed


text \<open>Every finite result of rounding has the form \<open>m * 2^k\<close> of a double.\<close>

lemma double_round_form:
  assumes "double_round x = Finite p"
  shows "\<exists>m k. p = of_int m * 2 powi k \<and> \<bar>m\<bar> < 2 ^ 53 \<and> - 1074 \<le> k \<and> k \<le> 971"
proof (cases "x = 0")
  case True
  then have "p = of_int 0 * 2 powi 0" using assms by (simp add: double_round_def)
  then show ?thesis by (intro exI [of _ 0] exI [of _ "0::int"]) simp
next
  case False
  define e where "e = binade x"
  define u where "u = (2::real) powi (e - 52)"
  define M where "M = py_round (x / u)"
  have u: "0 < u" by (simp add: u_def)
  have fin: "double_round x = (if 2 ^ 1024 \<le> of_int M * u then PosInf
      else if of_int M * u \<le> - (2 ^ 1024) then NegInf else Finite (of_int M * u))"
    using False by (simp add: double_round_def Let_def e_def u_def M_def)
  have p: "p = of_int M * u" and hi: "of_int M * u < 2 ^ 1024" and lo: "- (2 ^ 1024) < of_int M * u"
    using assms unfolding fin by (auto split: if_splits)
  have M: "\<bar>M\<bar> \<le> 2 ^ 53" unfolding M_def u_def e_def by (rule significand_bound [OF False])
  have ege: "- 1022 \<le> e" by (simp add: e_def binade_ge)
  have abs: "\<bar>real_of_int M\<bar> * u < 2 powi 1024"
    using hi lo u by (simp add: abs_if)
  show ?thesis
  proof (cases "\<bar>M\<bar> = 2 ^ 53")
    case True
    then have "\<bar>real_of_int M\<bar> = 2 ^ 53"
      by (metis of_int_abs of_int_numeral of_int_power)
    then have "(2::real) ^ 53 * u < 2 powi 1024" using abs by simp
    moreover have "(2::real) ^ 53 * u = 2 powi (e + 1)"
      by (simp add: u_def power_int_add power_int_diff)
    ultimately have lt: "(2::real) powi (e + 1) < 2 powi 1024" by simp
    have e1: "e + 1 < 1024"
    proof (rule ccontr)
      assume "\<not> e + 1 < 1024"
      then have "(2::real) powi 1024 \<le> 2 powi (e + 1)"
        by (intro power_int_increasing) simp_all
      with lt show False by linarith
    qed
    have sgn: "M = 2 ^ 53 \<or> M = - (2 ^ 53)" using True by (auto simp: abs_if split: if_splits)
    have "(2::real) powi (e - 51) = 2 * u" by (simp add: u_def power_int_diff)
    then have "p = of_int (M div 2) * 2 powi (e - 51)"
      using sgn by (auto simp: p)
    moreover have "\<bar>M div 2\<bar> < 2 ^ 53" using sgn by auto
    ultimately show ?thesis using ege e1
      by (intro exI [of _ "M div 2"] exI [of _ "e - 51"]) simp
  next
    case False
    with M have Mlt: "\<bar>M\<bar> < 2 ^ 53" by simp
    have e2: "e \<le> 1023"
    proof (rule ccontr)
      assume "\<not> e \<le> 1023"
      then have e3: "1024 \<le> e" by simp
      then have fl: "- 1022 \<le> \<lfloor>log 2 \<bar>x\<bar>\<rfloor>" using e_def by (simp add: binade_def max_def split: if_splits)
      have "2 powi e \<le> \<bar>x\<bar>" unfolding e_def by (rule binade_lower [OF \<open>x \<noteq> 0\<close> fl])
      moreover have "(2::real) powi e = 2 ^ 52 * u" by (simp add: u_def power_int_diff)
      ultimately have "2 ^ 52 \<le> \<bar>x / u\<bar>" using u by (simp add: abs_divide pos_le_divide_eq)
      with py_round_nearest [of "x / u"]
      have "2 ^ 52 - 1 < \<bar>real_of_int M\<bar>" unfolding M_def by linarith
      then have "real_of_int (2 ^ 52 - 1) < real_of_int \<bar>M\<bar>" by simp
      then have "2 ^ 52 - 1 < \<bar>M\<bar>" by (simp only: of_int_less_iff)
      then have "2 ^ 52 \<le> \<bar>M\<bar>" by simp
      then have "real_of_int (2 ^ 52) \<le> real_of_int \<bar>M\<bar>" by (simp only: of_int_le_iff)
      then have M52: "2 ^ 52 \<le> \<bar>real_of_int M\<bar>" by simp
      have "(2::real) powi (1024 - 52) \<le> u" unfolding u_def
        using e3 by (intro power_int_increasing) simp_all
      then have "(2::real) ^ 52 * 2 powi (1024 - 52) \<le> \<bar>real_of_int M\<bar> * u"
        using M52 by (intro mult_mono) simp_all
      moreover have "(2::real) ^ 52 * 2 powi (1024 - 52) = 2 powi 1024"
        by (simp add: power_int_diff)
      ultimately show False using abs by linarith
    qed
    have "p = of_int M * 2 powi (e - 52)" by (simp add: p u_def)
    then show ?thesis using Mlt ege e2
      by (intro exI [of _ M] exI [of _ "e - 52"]) simp
  qed
qed

text \<open>Rounding a double to an integer and converting the integer back to a double is exact.\<close>

lemma double_round_of_round:
  assumes "double_round x = Finite p"
  shows "double_round (of_int (py_round p)) = Finite (of_int (py_round p))"
proof -
  obtain m k where p: "p = of_int m * 2 powi k" and m: "\<bar>m\<bar> < 2 ^ 53"
    and k: "- 1074 \<le> k" "k \<le> 971"
    using double_round_form [OF assms] by blast
  show ?thesis
  proof (cases "0 \<le> k")
    case True
    then have "(2::real) powi k = 2 ^ nat k" by (simp add: power_int_def)
    then have "p = of_int (m * 2 ^ nat k)" by (simp add: p)
    then have "py_round p = m * 2 ^ nat k" by (simp only: py_round_of_int)
    then have "real_of_int (py_round p) = of_int m * 2 powi k"
      using \<open>(2::real) powi k = 2 ^ nat k\<close> by simp
    then show ?thesis using double_round_dyadic [OF m k] by simp
  next
    case False
    then have "(2::real) powi k \<le> 2 powi (- 1)" by (intro power_int_increasing) simp_all
    then have "(2::real) powi k \<le> 1 / 2" by (simp add: power_int_minus)
    moreover have "\<bar>real_of_int m\<bar> \<le> 2 ^ 53" using m
      by (metis less_imp_le of_int_abs of_int_le_iff of_int_numeral of_int_power)
    ultimately have "\<bar>real_of_int m\<bar> * 2 powi k \<le> 2 ^ 53 * (1 / 2)"
      by (intro mult_mono) simp_all
    then have "\<bar>p\<bar> \<le> 2 ^ 52" by (simp add: p abs_mult)
    with py_round_nearest [of p]
    have "\<bar>real_of_int (py_round p)\<bar> \<le> 2 ^ 52 + 1 / 2" by linarith
    moreover have "(2::real) ^ 52 + 1 / 2 < 2 ^ 53" by simp
    ultimately have "\<bar>real_of_int (py_round p)\<bar> < 2 ^ 53" by linarith
    then have "real_of_int \<bar>py_round p\<bar> < real_of_int (2 ^ 53)" by simp
    then have "\<bar>py_round p\<bar> < 2 ^ 53" by (simp only: of_int_less_iff)
    then show ?thesis using double_round_dyadic [of "py_round p" 0] by simp
  qed
qed



text \<open>Below half the smallest subnormal number a result is rounded to \<open>0\<close>.\<close>

lemma double_round_tiny:
  assumes "\<bar>x\<bar> < 2 powi (- 1075)"
  shows "double_round x = Finite 0"
proof (cases "x = 0")
  case True
  then show ?thesis by (simp add: double_round_def)
next
  case False
  have "(2::real) powi (- 1075) \<le> 2 powi (- 1022 + 1)" by (intro power_int_increasing) simp_all
  with assms have "\<bar>x\<bar> < 2 powi (- 1022 + 1)" by linarith
  then have "binade x \<le> - 1022" by (intro binade_le [OF False]) simp_all
  with binade_ge [of x] have e: "binade x = - 1022" by simp
  define u where "u = (2::real) powi (- 1074)"
  have u: "0 < u" by (simp add: u_def)
  have "(2::real) powi (- 1075) = u / 2" by (simp add: u_def power_int_minus)
  with assms have "\<bar>x\<bar> < u / 2" by simp
  then have "\<bar>x / u\<bar> < 1 / 2" using u by (simp add: abs_divide pos_divide_less_eq)
  with py_round_nearest [of "x / u"] have "\<bar>real_of_int (py_round (x / u))\<bar> < 1" by linarith
  then have "real_of_int \<bar>py_round (x / u)\<bar> < real_of_int 1" by simp
  then have "\<bar>py_round (x / u)\<bar> < 1" by (simp only: of_int_less_iff)
  then have "py_round (x / u) = 0" by simp
  then show ?thesis using False by (simp add: double_round_def Let_def e u_def)
qed

text \<open>From \<open>2^1024\<close> on a result is rounded to the infinity.\<close>

lemma double_round_huge:
  assumes "2 ^ 1024 \<le> x"
  shows "double_round x = PosInf"
proof -
  have x0: "x \<noteq> 0" and xpos: "0 < x" using assms by (simp_all add: less_le_trans [of 0 "2 ^ 1024"])
  define e where "e = binade x"
  define u where "u = (2::real) powi (e - 52)"
  define M where "M = py_round (x / u)"
  have u: "0 < u" by (simp add: u_def)
  have "(2::real) powi 1024 \<le> \<bar>x\<bar>" using assms by simp
  moreover have "2 powi \<lfloor>log 2 \<bar>x\<bar>\<rfloor> \<le> \<bar>x\<bar>" "\<bar>x\<bar> < 2 powi (\<lfloor>log 2 \<bar>x\<bar>\<rfloor> + 1)"
    using x0 by (intro log2_bounds, simp)+
  ultimately have "(2::real) powi 1024 < 2 powi (\<lfloor>log 2 \<bar>x\<bar>\<rfloor> + 1)" by linarith
  have fl: "1024 \<le> \<lfloor>log 2 \<bar>x\<bar>\<rfloor>"
  proof (rule ccontr)
    assume "\<not> 1024 \<le> \<lfloor>log 2 \<bar>x\<bar>\<rfloor>"
    then have "(2::real) powi (\<lfloor>log 2 \<bar>x\<bar>\<rfloor> + 1) \<le> 2 powi 1024"
      by (intro power_int_increasing) simp_all
    with \<open>(2::real) powi 1024 < 2 powi (\<lfloor>log 2 \<bar>x\<bar>\<rfloor> + 1)\<close> show False by linarith
  qed
  then have e: "1024 \<le> e" by (simp add: e_def binade_def)
  have "2 powi e \<le> \<bar>x\<bar>" unfolding e_def using fl by (intro binade_lower [OF x0]) simp
  moreover have "(2::real) powi e = 2 ^ 52 * u" by (simp add: u_def power_int_diff)
  ultimately have "2 ^ 52 \<le> x / u" using u xpos by (simp add: pos_le_divide_eq)
  with py_round_nearest [of "x / u"]
  have "2 ^ 52 - 1 < real_of_int M" unfolding M_def by linarith
  then have "real_of_int (2 ^ 52 - 1) < real_of_int M" by simp
  then have "2 ^ 52 - 1 < M" by (simp only: of_int_less_iff)
  then have "2 ^ 52 \<le> M" by simp
  then have "real_of_int (2 ^ 52) \<le> real_of_int M" by (simp only: of_int_le_iff)
  then have M52: "2 ^ 52 \<le> real_of_int M" by simp
  have "(2::real) powi (1024 - 52) \<le> u" unfolding u_def
    using e by (intro power_int_increasing) simp_all
  then have "(2::real) ^ 52 * 2 powi (1024 - 52) \<le> real_of_int M * u"
    using M52 by (intro mult_mono) simp_all
  moreover have "(2::real) ^ 52 * 2 powi (1024 - 52) = 2 powi 1024"
    by (simp add: power_int_diff)
  ultimately have "2 ^ 1024 \<le> real_of_int M * u" by simp
  then show ?thesis
    using x0 by (simp add: double_round_def Let_def e_def [symmetric] u_def [symmetric] M_def [symmetric])
qed

lemma double_round_0: "double_round 0 = Finite 0"
  by (simp add: double_round_def)

lemma py_round_0: "py_round 0 = 0"
  by (simp add: py_round_def)

text \<open>Some doubles.\<close>

lemma double_round_small:
  "double_round 1 = Finite 1" "double_round 2 = Finite 2" "double_round 3 = Finite 3"
  "double_round 4 = Finite 4" "double_round (1 / 2) = Finite (1 / 2)"
  "double_round (1 / 4) = Finite (1 / 4)" "double_round (3 / 4) = Finite (3 / 4)"
  "double_round (5 / 2) = Finite (5 / 2)"
  using double_round_dyadic [of 1 0] double_round_dyadic [of 2 0] double_round_dyadic [of 3 0]
    double_round_dyadic [of 4 0] double_round_dyadic [of 1 "- 1"] double_round_dyadic [of 1 "- 2"]
    double_round_dyadic [of 3 "- 2"] double_round_dyadic [of 5 "- 1"]
  by (simp_all add: power_int_minus field_simps)

subsection \<open>\<^verbatim>\<open>create_NWN\<close>\<close>


lemma create_nodes_only_nodes:
  "fst (create_nodes np sh is N rng) = N\<lparr>nodes := nodes (fst (create_nodes np sh is N rng))\<rparr>"
proof (induction "is" arbitrary: N rng)
  case Nil
  then show ?case by simp
next
  case (Cons i "is")
  obtain ln rng' where cl: "create_line np sh (wire_length N) 0 (width N) 0 (width N) rng = (ln, rng')"
    by (cases "create_line np sh (wire_length N) 0 (width N) 0 (width N) rng")
  let ?N' = "N\<lparr>nodes := AList.update i \<lparr>line = ln, midpoint = centroid sh ln, electrode = False\<rparr> (nodes N)\<rparr>"
  have step: "create_nodes np sh (i # is) N rng = create_nodes np sh is ?N' rng'"
    by (simp add: cl)
  have "fst (create_nodes np sh is ?N' rng') = ?N'\<lparr>nodes := nodes (fst (create_nodes np sh is ?N' rng'))\<rparr>"
    by (rule Cons.IH)
  then show ?case unfolding step by simp
qed

lemma create_nodes_keys:
  "distinct is \<Longrightarrow> set is \<inter> fst ` set (nodes N) = {} \<Longrightarrow>
   map fst (nodes (fst (create_nodes np sh is N rng))) = map fst (nodes N) @ is"
proof (induction "is" arbitrary: N rng)
  case Nil
  then show ?case by simp
next
  case (Cons i "is")
  obtain ln rng' where cl: "create_line np sh (wire_length N) 0 (width N) 0 (width N) rng = (ln, rng')"
    by (cases "create_line np sh (wire_length N) 0 (width N) 0 (width N) rng")
  let ?w = "\<lparr>line = ln, midpoint = centroid sh ln, electrode = False\<rparr>"
  let ?N' = "N\<lparr>nodes := AList.update i ?w (nodes N)\<rparr>"
  have step: "create_nodes np sh (i # is) N rng = create_nodes np sh is ?N' rng'"
    by (simp add: cl)
  have fresh: "i \<notin> fst ` set (nodes N)" using Cons.prems by auto
  have n': "nodes ?N' = nodes N @ [(i, ?w)]" using fresh by (simp add: update_fresh)
  have "set is \<inter> fst ` set (nodes ?N') = {}" using Cons.prems unfolding n' by auto
  with Cons.IH [of ?N' rng'] Cons.prems have
    "map fst (nodes (fst (create_nodes np sh is ?N' rng'))) = map fst (nodes ?N') @ is" by simp
  then show ?case unfolding step n' by simp
qed

lemma set_update_subset: "set (AList.update k v al) \<subseteq> insert (k, v) (set al)"
  by (induction al) auto

lemma create_nodes_not_electrode:
  "\<forall>w\<in>snd ` set (nodes N). \<not> electrode w \<Longrightarrow>
   \<forall>w\<in>snd ` set (nodes (fst (create_nodes np sh is N rng))). \<not> electrode w"
proof (induction "is" arbitrary: N rng)
  case Nil
  then show ?case by simp
next
  case (Cons i "is")
  obtain ln rng' where cl: "create_line np sh (wire_length N) 0 (width N) 0 (width N) rng = (ln, rng')"
    by (cases "create_line np sh (wire_length N) 0 (width N) 0 (width N) rng")
  let ?w = "\<lparr>line = ln, midpoint = centroid sh ln, electrode = False\<rparr>"
  let ?N' = "N\<lparr>nodes := AList.update i ?w (nodes N)\<rparr>"
  have step: "create_nodes np sh (i # is) N rng = create_nodes np sh is ?N' rng'"
    by (simp add: cl)
  have "set (AList.update i ?w (nodes N)) \<subseteq> insert (i, ?w) (set (nodes N))"
    by (rule set_update_subset)
  with Cons.prems have "\<forall>w\<in>snd ` set (nodes ?N'). \<not> electrode w" by auto
  from Cons.IH [OF this] show ?case unfolding step .
qed

lemma find_intersects_loop_total:
  assumes "\<And>i j. (i, j) \<in> set ps \<Longrightarrow>
             (\<exists>l. getitem lines i = Inr l) \<and> (\<exists>l. getitem lines j = Inr l)"
  shows "\<exists>out'. find_intersects_loop sh lines ps out = Inr out'"
  using assms
proof (induction ps arbitrary: out)
  case Nil
  then show ?case by simp
next
  case (Cons p ps)
  obtain i j where p: "p = (i, j)" by (cases p)
  from Cons.prems [of i j] obtain li lj where
    g: "getitem lines i = Inr li" "getitem lines j = Inr lj" unfolding p by auto
  have rest: "\<And>a b. (a, b) \<in> set ps \<Longrightarrow>
             (\<exists>l. getitem lines a = Inr l) \<and> (\<exists>l. getitem lines b = Inr l)"
    by (rule Cons.prems) simp
  show ?case unfolding p using g Cons.IH [OF rest] by simp
qed

lemma getitem_nodes_data_line:
  "i \<in> fst ` set (nodes N) \<Longrightarrow> \<exists>l. getitem (nodes_data_line N) i = Inr l"
proof -
  assume "i \<in> fst ` set (nodes N)"
  then have "i \<in> fst ` set (map (\<lambda>(n, w). (n, line w)) (nodes N))" by force
  then obtain l where "map_of (map (\<lambda>(n, w). (n, line w)) (nodes N)) i = Some l"
    by (metis domD dom_map_of_conv_image_fst)
  then show ?thesis by (simp add: nodes_data_line_def)
qed

lemma find_intersects_nodes_total:
  assumes "map fst (nodes N) = [0..n - 1]"
  shows "\<exists>out. find_intersects sh (nodes_data_line N) = Inr out"
proof -
  have len: "len (nodes_data_line N) = int (length [0..n - 1])"
    using arg_cong [OF assms, of length] by (simp add: nodes_data_line_def)
  have keys: "fst ` set (nodes N) = set [0..n - 1]"
    using arg_cong [OF assms, of set] by simp
  have "\<exists>l. getitem (nodes_data_line N) i = Inr l" if "0 \<le> i" "i < int (length [0..n - 1])" for i
    using that keys by (intro getitem_nodes_data_line) (auto split: if_splits)
  then show ?thesis
    unfolding find_intersects_def len
    by (intro find_intersects_loop_total) (auto simp: set_triu_indices)
qed


lemma add_edges_from_keys:
  "fst ` set (add_edges_from ks r es) \<subseteq> fst ` set es \<union> (\<lambda>(u, v). (min u v, max u v)) ` set ks"
  unfolding add_edges_from_def
proof (induction ks arbitrary: es)
  case Nil
  then show ?case by simp
next
  case (Cons k ks)
  obtain u v where k: "k = (u, v)" by (cases k)
  have "fst ` set (AList.update (min u v, max u v) r es) = {(min u v, max u v)} \<union> fst ` set es"
    by (rule dom_update)
  with Cons.IH [of "AList.update (min u v, max u v) r es"] show ?case
    unfolding k by auto
qed





text \<open>
  The run of \<^verbatim>\<open>create_NWN\<close> when \<^verbatim>\<open>size\<close> is a finite float other than \<open>0\<close> and
  \<^verbatim>\<open>size * density\<close> is finite: up to the last division.
\<close>

lemma create_NWN_run:
  fixes np :: "'g numpy_random" and sh :: "('l, 'p) shapely"
  assumes s: "double_round (width0 * width0) = Finite s" "s \<noteq> 0"
    and p: "double_round (s * density) = Finite p"
  shows "\<exists>ns out.
           map fst ns = [0..py_round p - 1] \<and>
           (\<forall>w\<in>snd ` set ns. \<not> electrode w) \<and>
           find_intersects sh (NodeDataView (map (\<lambda>(n, w). (n, line w)) ns)) = Inr out \<and>
           create_NWN np sh wire_length0 width0 density seed resistance =
             (case int_truediv (int (length out)) (Finite s) of
                Inl e \<Rightarrow> Inl e
              | Inr jd \<Rightarrow>
                  Inr \<lparr>wire_length = wire_length0, width = width0, size_attr = Finite s,
                       wire_density = double_round (of_int (py_round p) / s),
                       wire_num = py_round p, electrodes = 0,
                       junction_resistance = resistance, electrode_list = [],
                       loc = out, junction_density = jd,
                       nodes = ns, edges = add_edges_from (map fst out) resistance []\<rparr>)"
proof -
  let ?wn = "py_round p"
  let ?dens = "double_round (of_int ?wn / s)"
  let ?N0 = "\<lparr>wire_length = wire_length0, width = width0, size_attr = Finite s,
              wire_density = ?dens, wire_num = ?wn, electrodes = 0,
              junction_resistance = resistance, electrode_list = [],
              loc = [], junction_density = Finite 0, nodes = [], edges = []\<rparr> :: ('l, 'p) NWN"
  let ?cn = "create_nodes np sh [0..?wn - 1] ?N0 (default_rng np seed)"
  let ?ns = "nodes (fst ?cn)"
  have N1: "fst ?cn = ?N0\<lparr>nodes := ?ns\<rparr>" by (rule create_nodes_only_nodes)
  have keys: "map fst ?ns = [0..?wn - 1]"
    using create_nodes_keys [of "[0..?wn - 1]" ?N0 np sh "default_rng np seed"] by simp
  have flags: "\<forall>w\<in>snd ` set ?ns. \<not> electrode w"
    by (rule create_nodes_not_electrode) simp
  from find_intersects_nodes_total [OF keys, of sh] obtain out where
    out: "find_intersects sh (nodes_data_line (fst ?cn)) = Inr out" by blast
  have conv: "double_round (of_int ?wn) = Finite (of_int ?wn)"
    by (rule double_round_of_round [OF p])
  have dens: "int_truediv ?wn (Finite s) = Inr ?dens"
    using s(2) by (simp add: int_truediv_def conv)
  have run: "create_NWN np sh wire_length0 width0 density seed resistance =
      (case int_truediv (int (length out)) (Finite s) of
         Inl e \<Rightarrow> Inl e
       | Inr jd \<Rightarrow>
           Inr ((fst ?cn)\<lparr>edges := add_edges_from (map fst out) resistance (edges (fst ?cn)),
                          loc := out, junction_density := jd\<rparr>))"
    using out
    by (cases "int_truediv (int (length out)) (Finite s)")
      (simp_all add: create_NWN_def s(1) p dens Let_def split_beta)
  have rec: "(fst ?cn)\<lparr>edges := add_edges_from (map fst out) resistance (edges (fst ?cn)),
                     loc := out, junction_density := jd\<rparr>
      = \<lparr>wire_length = wire_length0, width = width0, size_attr = Finite s,
         wire_density = ?dens, wire_num = ?wn, electrodes = 0,
         junction_resistance = resistance, electrode_list = [],
         loc = out, junction_density = jd,
         nodes = ?ns, edges = add_edges_from (map fst out) resistance []\<rparr>" for jd
    by (subst (1 2) N1) simp
  have fi: "find_intersects sh (NodeDataView (map (\<lambda>(n, w). (n, line w)) ?ns)) = Inr out"
    using out by (simp add: nodes_data_line_def)
  have "create_NWN np sh wire_length0 width0 density seed resistance =
      (case int_truediv (int (length out)) (Finite s) of
         Inl e \<Rightarrow> Inl e
       | Inr jd \<Rightarrow>
           Inr \<lparr>wire_length = wire_length0, width = width0, size_attr = Finite s,
                wire_density = ?dens, wire_num = ?wn, electrodes = 0,
                junction_resistance = resistance, electrode_list = [],
                loc = out, junction_density = jd,
                nodes = ?ns, edges = add_edges_from (map fst out) resistance []\<rparr>)"
    unfolding run by (cases "int_truediv (int (length out)) (Finite s)") (simp_all add: rec)
  with keys flags fi show ?thesis by blast
qed

text \<open>When \<^verbatim>\<open>create_NWN\<close> returns, both products were finite and \<^verbatim>\<open>size\<close> was not \<open>0\<close>.\<close>

lemma create_NWN_returned:
  assumes "create_NWN np sh wire_length0 width0 density seed resistance = Inr N"
  shows "\<exists>s p. double_round (width0 * width0) = Finite s \<and> s \<noteq> 0 \<and>
               double_round (s * density) = Finite p"
proof (cases "double_round (width0 * width0)")
  case (Finite s)
  show ?thesis
  proof (cases "double_round (s * density)")
    case p: (Finite p)
    have "s \<noteq> 0"
    proof
      assume "s = 0"
      with Finite have "double_round (width0 * width0) = Finite 0" by simp
      then have "create_NWN np sh wire_length0 width0 density seed resistance
                   = Inl ZeroDivisionError"
        by (simp add: create_NWN_def double_round_0 py_round_0 int_truediv_def)
      with assms show False by simp
    qed
    with Finite p show ?thesis by simp
  next
    case PosInf
    with Finite assms show ?thesis by (simp add: create_NWN_def)
  next
    case NegInf
    with Finite assms show ?thesis by (simp add: create_NWN_def)
  next
    case NaN
    with Finite assms show ?thesis by (simp add: create_NWN_def)
  qed
next
  case PosInf
  with assms show ?thesis by (simp add: create_NWN_def split: if_splits)
next
  case NegInf
  with assms show ?thesis by (simp add: create_NWN_def split: if_splits)
next
  case NaN
  with assms show ?thesis by (simp add: create_NWN_def)
qed

text \<open>The network that \<^verbatim>\<open>create_NWN\<close> returns.\<close>

lemma create_NWN_cases:
  fixes np :: "'g numpy_random" and sh :: "('l, 'p) shapely"
  assumes "create_NWN np sh wire_length0 width0 density seed resistance = Inr N"
  shows "\<exists>s p jd ns out.
           double_round (width0 * width0) = Finite s \<and> s \<noteq> 0 \<and>
           double_round (s * density) = Finite p \<and>
           N = \<lparr>wire_length = wire_length0, width = width0, size_attr = Finite s,
                wire_density = double_round (of_int (py_round p) / s),
                wire_num = py_round p, electrodes = 0,
                junction_resistance = resistance, electrode_list = [],
                loc = out, junction_density = jd,
                nodes = ns, edges = add_edges_from (map fst out) resistance []\<rparr> \<and>
           map fst ns = [0..py_round p - 1] \<and>
           (\<forall>w\<in>snd ` set ns. \<not> electrode w) \<and>
           find_intersects sh (NodeDataView (map (\<lambda>(n, w). (n, line w)) ns)) = Inr out"
proof -
  from create_NWN_returned [OF assms] obtain s p where
    s: "double_round (width0 * width0) = Finite s" "s \<noteq> 0"
    and p: "double_round (s * density) = Finite p" by blast
  from create_NWN_run [OF s p] obtain ns out where
    keys: "map fst ns = [0..py_round p - 1]"
    and flags: "\<forall>w\<in>snd ` set ns. \<not> electrode w"
    and fi: "find_intersects sh (NodeDataView (map (\<lambda>(n, w). (n, line w)) ns)) = Inr out"
    and run: "create_NWN np sh wire_length0 width0 density seed resistance =
             (case int_truediv (int (length out)) (Finite s) of
                Inl e \<Rightarrow> Inl e
              | Inr jd \<Rightarrow>
                  Inr \<lparr>wire_length = wire_length0, width = width0, size_attr = Finite s,
                       wire_density = double_round (of_int (py_round p) / s),
                       wire_num = py_round p, electrodes = 0,
                       junction_resistance = resistance, electrode_list = [],
                       loc = out, junction_density = jd,
                       nodes = ns, edges = add_edges_from (map fst out) resistance []\<rparr>)"
    by blast
  from run assms obtain jd where
    "N = \<lparr>wire_length = wire_length0, width = width0, size_attr = Finite s,
          wire_density = double_round (of_int (py_round p) / s),
          wire_num = py_round p, electrodes = 0,
          junction_resistance = resistance, electrode_list = [],
          loc = out, junction_density = jd,
          nodes = ns, edges = add_edges_from (map fst out) resistance []\<rparr>"
    by (auto split: sum.splits)
  with s p keys flags fi show ?thesis by blast
qed



text \<open>
  When \<^verbatim>\<open>width * width\<close> is rounded to \<open>0\<close> the first division raises, and when it
  is rounded to the infinity \<^verbatim>\<open>round\<close> raises: so for the widths \<open>2^-600\<close> and
  \<open>2^600\<close>.
\<close>

lemma create_NWN_underflow:
  "create_NWN np sh wire_length0 (1 / 2 ^ 600) density seed resistance = Inl ZeroDivisionError"
proof -
  have "(1 / 2 ^ 600 * (1 / 2 ^ 600) :: real) = 2 powi (- 1200)"
    by (simp add: power_int_minus field_simps)
  moreover have "(2::real) powi (- 1200) < 2 powi (- 1075)"
    by (intro power_int_strict_increasing) simp_all
  ultimately have "double_round (1 / 2 ^ 600 * (1 / 2 ^ 600)) = Finite 0"
    by (intro double_round_tiny) simp
  then show ?thesis
    by (simp add: create_NWN_def double_round_0 py_round_0 int_truediv_def)
qed

lemma create_NWN_overflow:
  "create_NWN np sh wire_length0 (2 ^ 600) density seed resistance
     = Inl (if density = 0 then ValueError else OverflowError)"
proof -
  have "(2::real) ^ 1024 \<le> 2 ^ 600 * 2 ^ 600"
    by (simp add: power_add [symmetric])
  then have "double_round (2 ^ 600 * 2 ^ 600) = PosInf" by (rule double_round_huge)
  then show ?thesis by (simp add: create_NWN_def)
qed




subsection \<open>The invariant of \<^verbatim>\<open>create_NWN\<close> and \<^verbatim>\<open>add_wires\<close>\<close>

lemma find_intersects_keys_lt:
  assumes "find_intersects sh lines = Inr out"
  shows "\<forall>k\<in>fst ` set out. fst k < snd k"
proof -
  have "fst ` set out \<subseteq> set (triu_indices (len lines))"
    using find_intersects_loop_keys [of sh lines "triu_indices (len lines)" "[]" out] assms
    unfolding find_intersects_def by simp
  then show ?thesis unfolding set_triu_indices by auto
qed

lemma find_line_intersects_keys_lt:
  assumes "find_line_intersects sh ind lines = Inr out"
  shows "\<forall>k\<in>fst ` set out. fst k < snd k"
proof
  fix k assume "k \<in> fst ` set out"
  moreover have "fst ` set out \<subseteq> (\<lambda>j. (min ind j, max ind j)) ` (set [0..len lines - 1] - {ind})"
    using find_line_intersects_loop_keys [of sh ind lines "[0..len lines - 1]" "[]" out] assms
    unfolding find_line_intersects_def by simp
  ultimately obtain j where "j \<noteq> ind" "k = (min ind j, max ind j)" by blast
  then show "fst k < snd k" by (auto simp: min_def max_def)
qed

lemma add_edges_from_keys_lt:
  assumes "\<forall>k\<in>fst ` set es. fst k < snd k" "\<forall>k\<in>set ks. fst k < snd k"
  shows "\<forall>k\<in>fst ` set (add_edges_from ks r es). fst k < snd k"
proof
  fix k assume "k \<in> fst ` set (add_edges_from ks r es)"
  with add_edges_from_keys [of ks r es]
  have "k \<in> fst ` set es \<or> k \<in> (\<lambda>(u, v). (min u v, max u v)) ` set ks" by blast
  then show "fst k < snd k"
  proof
    assume "k \<in> fst ` set es"
    with assms(1) show ?thesis by blast
  next
    assume "k \<in> (\<lambda>(u, v). (min u v, max u v)) ` set ks"
    then obtain u v where "(u, v) \<in> set ks" "k = (min u v, max u v)" by auto
    with assms(2) show ?thesis by (auto simp: min_def max_def)
  qed
qed

lemma dict_update_keys: "fst ` set (dict_update d1 d2) = fst ` set d1 \<union> fst ` set d2"
  unfolding dict_update_def
proof (induction d2 arbitrary: d1)
  case Nil
  then show ?case by simp
next
  case (Cons p d2)
  obtain k v where p: "p = (k, v)" by (cases p)
  have "fst ` set (AList.update k v d1) = {k} \<union> fst ` set d1" by (rule dom_update)
  with Cons.IH [of "AList.update k v d1"] show ?case unfolding p by auto
qed

lemma add_edges_from_distinct:
  "distinct (map fst es) \<Longrightarrow> distinct (map fst (add_edges_from ks r es))"
  unfolding add_edges_from_def
  by (induction ks arbitrary: es) (auto simp: distinct_update)

lemma dict_update_distinct:
  "distinct (map fst d1) \<Longrightarrow> distinct (map fst (dict_update d1 d2))"
  unfolding dict_update_def
  by (induction d2 arbitrary: d1) (auto simp: distinct_update)

lemma find_intersects_distinct:
  "find_intersects sh lines = Inr out \<Longrightarrow> distinct (map fst out)"
  unfolding find_intersects_def by (auto dest: find_intersects_loop_distinct)

lemma network_invariant_mono: "network_invariant B N \<Longrightarrow> B \<le> B' \<Longrightarrow> network_invariant B' N"
  unfolding network_invariant_def by force

text \<open>One round of the loop of \<^verbatim>\<open>add_wires\<close>, up to the search for intersections.\<close>

lemma add_node_invariant:
  fixes N :: "('l, 'p) NWN" and l :: 'l and m :: 'p and e :: bool
  assumes inv: "network_invariant B N" and k: "B \<le> k"
    and N1: "N1 = N\<lparr>nodes := AList.update k \<lparr>line = l, midpoint = m, electrode = e\<rparr> (nodes N)\<rparr>"
    and N2: "N2 = (if e then N1\<lparr>electrode_list := electrode_list N1 @ [k]\<rparr> else N1)"
  shows "network_invariant (k + 1) N2"
proof -
  let ?w = "\<lparr>line = l, midpoint = m, electrode = e\<rparr>"
  from inv k have fresh: "k \<notin> fst ` set (nodes N)"
    unfolding network_invariant_def by force
  then have n1: "nodes N1 = nodes N @ [(k, ?w)]"
    unfolding N1 by (simp add: update_fresh)
  have n2: "nodes N2 = nodes N @ [(k, ?w)]" "edges N2 = edges N" "loc N2 = loc N"
    "electrode_list N2 = electrode_list N @ (if e then [k] else [])"
    unfolding N2 N1 using fresh by (simp_all add: update_fresh)
  from inv k have lt: "\<forall>x\<in>set (map fst (nodes N)). x < k"
    unfolding network_invariant_def by force
  show ?thesis
    unfolding network_invariant_def n2
    using inv lt unfolding network_invariant_def
    by (auto simp: sorted_wrt_append)
qed

lemma add_wires_loop_invariant:
  assumes "add_wires_loop sh start lines els is N = (res, N')"
    and "sorted_wrt (<) is" and "\<forall>i\<in>set is. a \<le> i \<and> i < b" and "a \<le> b"
    and "network_invariant (start + int a) N"
  shows "network_invariant (start + int b) N' \<and> wire_num N' = wire_num N \<and>
         size_attr N' = size_attr N"
  using assms
proof (induction "is" arbitrary: a N)
  case Nil
  then show ?case by (auto intro: network_invariant_mono)
next
  case (Cons i "is")
  let ?k = "start + int i"
  let ?w = "\<lparr>line = lines ! i, midpoint = centroid sh (lines ! i), electrode = els ! i\<rparr>"
  let ?N1 = "N\<lparr>nodes := AList.update ?k ?w (nodes N)\<rparr>"
  let ?N2 = "if els ! i then ?N1\<lparr>electrode_list := electrode_list ?N1 @ [?k]\<rparr> else ?N1"
  have i: "a \<le> i" "i < b" using Cons.prems(3) by simp_all
  have inv2: "network_invariant (?k + 1) ?N2"
    by (rule add_node_invariant [OF Cons.prems(5) _ refl refl]) (use i in simp)
  have same2: "wire_num ?N2 = wire_num N" "size_attr ?N2 = size_attr N" by simp_all
  show ?case
  proof (cases "find_line_intersects sh ?k (nodes_data_line ?N2)")
    case (Inl e)
    with Cons.prems(1) have "N' = ?N2" by (simp add: Let_def)
    with inv2 same2 i show ?thesis
      by (auto intro: network_invariant_mono [of "?k + 1"])
  next
    case (Inr d)
    let ?N3 = "?N2\<lparr>edges := add_edges_from (map fst d) (junction_resistance ?N2) (edges ?N2),
                    loc := dict_update (loc ?N2) d\<rparr>"
    from Inr Cons.prems(1) have run: "add_wires_loop sh start lines els is ?N3 = (res, N')"
      by (simp add: Let_def)
    have dk: "\<forall>k\<in>fst ` set d. fst k < snd k"
      by (rule find_line_intersects_keys_lt [OF Inr])
    have e3: "\<forall>k\<in>fst ` set (edges ?N3). fst k < snd k"
    proof -
      have "\<forall>k\<in>fst ` set (edges ?N2). fst k < snd k"
        using inv2 unfolding network_invariant_def by blast
      moreover have "\<forall>k\<in>set (map fst d). fst k < snd k" using dk by simp
      ultimately have "\<forall>k\<in>fst ` set (add_edges_from (map fst d) (junction_resistance ?N2) (edges ?N2)).
          fst k < snd k" by (rule add_edges_from_keys_lt)
      then show ?thesis by simp
    qed
    have l3: "\<forall>k\<in>fst ` set (loc ?N3). fst k < snd k"
    proof -
      have "\<forall>k\<in>fst ` set (loc ?N2). fst k < snd k"
        using inv2 unfolding network_invariant_def by blast
      with dk have "\<forall>k\<in>fst ` set (dict_update (loc ?N2) d). fst k < snd k"
        unfolding dict_update_keys by blast
      then show ?thesis by simp
    qed
    have d3: "distinct (map fst (edges ?N3))" "distinct (map fst (loc ?N3))"
    proof -
      have de: "distinct (map fst (edges ?N2))" and dl: "distinct (map fst (loc ?N2))"
        using inv2 unfolding network_invariant_def by blast+
      have "distinct (map fst (add_edges_from (map fst d) (junction_resistance ?N2) (edges ?N2)))"
        using de by (rule add_edges_from_distinct)
      then show "distinct (map fst (edges ?N3))" by simp
      have "distinct (map fst (dict_update (loc ?N2) d))"
        using dl by (rule dict_update_distinct)
      then show "distinct (map fst (loc ?N3))" by simp
    qed
    have inv3: "network_invariant (start + int (Suc i)) ?N3"
    proof -
      have "nodes ?N3 = nodes ?N2" "electrode_list ?N3 = electrode_list ?N2" by simp_all
      with inv2 e3 l3 d3 show ?thesis
        unfolding network_invariant_def by (simp add: add.commute add.left_commute)
    qed
    have s: "sorted_wrt (<) is" and r: "\<forall>j\<in>set is. Suc i \<le> j \<and> j < b"
      using Cons.prems(2,3) by auto
    have ab: "Suc i \<le> b" using i by simp
    from Cons.IH [OF run s r ab inv3] show ?thesis by simp
  qed
qed


lemma add_wires_invariant:
  assumes "network_invariant (wire_num N) N" "add_wires sh N lines els = (res, N')"
  shows "network_invariant (wire_num N') N'"
proof (cases "length lines = length els")
  case False
  with assms show ?thesis by (simp add: add_wires_def)
next
  case True
  let ?n = "length lines"
  let ?N1 = "N\<lparr>wire_num := wire_num N + int ?n,
               electrodes := electrodes N + int (length (filter (\<lambda>b. b) els))\<rparr>"
  obtain r2 N2 where loop: "add_wires_loop sh (wire_num N) lines els [0..<?n] ?N1 = (r2, N2)"
    by (cases "add_wires_loop sh (wire_num N) lines els [0..<?n] ?N1")
  have inv1: "network_invariant (wire_num N + int 0) ?N1"
    using assms(1) unfolding network_invariant_def by simp
  have s: "sorted_wrt (<) [0..<?n]" by (simp add: strict_sorted_iff)
  have r: "\<forall>i\<in>set [0..<?n]. 0 \<le> i \<and> i < ?n" by simp
  have ab: "0 \<le> ?n" by simp
  have inv2: "network_invariant (wire_num N + int ?n) N2 \<and>
      wire_num N2 = wire_num ?N1 \<and> size_attr N2 = size_attr ?N1"
    by (rule add_wires_loop_invariant [OF loop s r ab inv1])
  then have inv2': "network_invariant (wire_num N2) N2" by simp
  from assms(2) True loop have
    "N' = N2 \<or> N' = N2\<lparr>wire_density :=
        np_truediv (wire_num N2 - electrodes N2) (size_attr N2)\<rparr>"
    by (auto simp: add_wires_def Let_def split: option.splits if_splits)
  then show ?thesis
  proof
    assume "N' = N2"
    with inv2' show ?thesis by simp
  next
    assume "N' = N2\<lparr>wire_density :=
        np_truediv (wire_num N2 - electrodes N2) (size_attr N2)\<rparr>"
    with inv2' show ?thesis unfolding network_invariant_def by simp
  qed
qed

lemma create_NWN_invariant:
  fixes np :: "'g numpy_random" and sh :: "('l, 'p) shapely"
  assumes "create_NWN np sh wire_length0 width0 density seed resistance = Inr N"
  shows "network_invariant (wire_num N) N"
proof -
  from create_NWN_cases [OF assms]
  obtain p ns out where
    wn: "wire_num N = py_round p" and el: "electrode_list N = []" and lo: "loc N = out"
    and no: "nodes N = ns" and ed: "edges N = add_edges_from (map fst out) resistance []"
    and keys: "map fst ns = [0..py_round p - 1]"
    and flags: "\<forall>w\<in>snd ` set ns. \<not> electrode w"
    and fi: "find_intersects sh (NodeDataView (map (\<lambda>(n, w). (n, line w)) ns)) = Inr out"
    by auto
  let ?wn = "py_round p"
  have ok: "\<forall>k\<in>fst ` set out. fst k < snd k" by (rule find_intersects_keys_lt [OF fi])
  have a: "sorted_wrt (<) (map fst ns)" unfolding keys by (simp add: strict_sorted_iff)
  have b: "\<forall>k\<in>fst ` set ns. k < ?wn"
  proof -
    have "fst ` set ns = set [0..?wn - 1]" using arg_cong [OF keys, of set] by simp
    then show ?thesis by simp
  qed
  have c: "filter (\<lambda>(i, w). electrode w) ns = []"
    using flags by (auto simp: filter_empty_conv)
  have d: "\<forall>k\<in>fst ` set (add_edges_from (map fst out) resistance []). fst k < snd k"
    by (rule add_edges_from_keys_lt) (use ok in simp_all)
  have e: "distinct (map fst (add_edges_from (map fst out) resistance []))"
    by (rule add_edges_from_distinct) simp
  have f: "distinct (map fst out)" by (rule find_intersects_distinct [OF fi])
  show ?thesis
    unfolding network_invariant_def wn el lo no ed using a b c d e f ok by simp
qed

lemma reachable_invariant: "reachable np sh N \<Longrightarrow> network_invariant (wire_num N) N"
proof (induction rule: reachable.induct)
  case (created wire_length0 width0 density seed resistance N)
  then show ?case by (rule create_NWN_invariant)
next
  case (added N lines els N')
  from added.IH added.hyps(2) show ?case by (rule add_wires_invariant)
qed

lemma sorted_wrt_map_filter:
  "sorted_wrt R (map f xs) \<Longrightarrow> sorted_wrt R (map f (filter P xs))"
  by (induction xs) auto

lemma upto_from_0: "[0..(1::int)] = [0, 1]" "[0..(2::int)] = [0, 1, 2]"
  "[0..(3::int)] = [0, 1, 2, 3]" "[0..(4::int)] = [0, 1, 2, 3, 4]"
  "[1..(1::int)] = [1]" "[2..(1::int)] = []"
  by (simp_all add: upto.simps)

lemma py_round_2: "py_round 2 = 2"
  by (simp add: py_round_def)

lemma create_cross: "create_NWN step_rng box_shapely 4 2 (1 / 2) None 10 = Inr cross_network"
  by (simp add: create_NWN_def int_truediv_def double_round_small py_round_2 upto_from_0
      step_rng_def box_shapely_def
      create_line_def find_intersects_def triu_indices_def nodes_data_line_def
      box_intersects_def box_intersection_def box_centroid_def add_edges_from_def
      cross_network_def Let_def)

lemma upt_3: "[0..<3] = [0, 1, 2]"
  by (simp add: upt_rec)

lemma grow_cross:
  "add_wires box_shapely cross_network
     [[(- 1, 0), (- 1, 2)], [(5, 5), (6, 5)], [(2, 0), (2, 3)]] [True, False, True]
   = (None, grown_network)"
  by (simp add: add_wires_def np_truediv_def double_round_small cross_network_def
      grown_network_def upt_3 upto_from_0
      find_line_intersects_def nodes_data_line_def box_shapely_def
      box_intersects_def box_intersection_def box_centroid_def add_edges_from_def
      dict_update_def Let_def)

lemma add_wires_loop_size:
  "add_wires_loop sh start lines els is N = (res, N') \<Longrightarrow> size_attr N' = size_attr N"
proof (induction "is" arbitrary: N)
  case Nil
  then show ?case by simp
next
  case (Cons i "is")
  let ?w = "\<lparr>line = lines ! i, midpoint = centroid sh (lines ! i), electrode = els ! i\<rparr>"
  let ?N1 = "N\<lparr>nodes := AList.update (start + int i) ?w (nodes N)\<rparr>"
  let ?N2 = "if els ! i then ?N1\<lparr>electrode_list := electrode_list ?N1 @ [start + int i]\<rparr> else ?N1"
  show ?case
  proof (cases "find_line_intersects sh (start + int i) (nodes_data_line ?N2)")
    case (Inl e)
    with Cons.prems have "N' = ?N2" by (simp add: Let_def)
    then show ?thesis by simp
  next
    case (Inr d)
    let ?N3 = "?N2\<lparr>edges := add_edges_from (map fst d) (junction_resistance ?N2) (edges ?N2),
                    loc := dict_update (loc ?N2) d\<rparr>"
    from Inr Cons.prems have "add_wires_loop sh start lines els is ?N3 = (res, N')"
      by (simp add: Let_def)
    from Cons.IH [OF this] show ?thesis by simp
  qed
qed

lemma getitem_error: "getitem lines i = Inl e \<Longrightarrow> e = IndexError \<or> e = KeyError"
  by (cases lines) (auto split: if_splits option.splits)

lemma find_line_intersects_loop_error:
  "find_line_intersects_loop sh ind lines js out = Inl e \<Longrightarrow> e = IndexError \<or> e = KeyError"
proof (induction js arbitrary: out)
  case Nil
  then show ?case by simp
next
  case (Cons j js)
  from Cons.prems consider
    (item) k where "getitem lines k = Inl e"
  | (rest) out1 where "find_line_intersects_loop sh ind lines js out1 = Inl e"
    by (auto split: if_splits sum.splits)
  then show ?case
  proof cases
    case item
    then show ?thesis by (rule getitem_error)
  next
    case rest
    then show ?thesis by (rule Cons.IH)
  qed
qed

lemma add_wires_loop_error:
  "add_wires_loop sh start lines els is N = (Some e, N') \<Longrightarrow> e = IndexError \<or> e = KeyError"
proof (induction "is" arbitrary: N)
  case Nil
  then show ?case by simp
next
  case (Cons i "is")
  let ?w = "\<lparr>line = lines ! i, midpoint = centroid sh (lines ! i), electrode = els ! i\<rparr>"
  let ?N1 = "N\<lparr>nodes := AList.update (start + int i) ?w (nodes N)\<rparr>"
  let ?N2 = "if els ! i then ?N1\<lparr>electrode_list := electrode_list ?N1 @ [start + int i]\<rparr> else ?N1"
  show ?case
  proof (cases "find_line_intersects sh (start + int i) (nodes_data_line ?N2)")
    case (Inl e')
    with Cons.prems have "e = e'" by (simp add: Let_def)
    with Inl show ?thesis
      unfolding find_line_intersects_def by (auto dest: find_line_intersects_loop_error)
  next
    case (Inr d)
    let ?N3 = "?N2\<lparr>edges := add_edges_from (map fst d) (junction_resistance ?N2) (edges ?N2),
                    loc := dict_update (loc ?N2) d\<rparr>"
    from Inr Cons.prems have "add_wires_loop sh start lines els is ?N3 = (Some e, N')"
      by (simp add: Let_def)
    then show ?thesis by (rule Cons.IH)
  qed
qed

lemma add_wires_size:
  assumes "add_wires sh N lines els = (res, N')"
  shows "size_attr N' = size_attr N"
proof (cases "length lines = length els")
  case False
  with assms show ?thesis by (auto simp: add_wires_def)
next
  case True
  let ?n = "length lines"
  let ?N1 = "N\<lparr>wire_num := wire_num N + int ?n,
               electrodes := electrodes N + int (length (filter (\<lambda>b. b) els))\<rparr>"
  obtain r2 N2 where loop: "add_wires_loop sh (wire_num N) lines els [0..<?n] ?N1 = (r2, N2)"
    by (cases "add_wires_loop sh (wire_num N) lines els [0..<?n] ?N1")
  from add_wires_loop_size [OF loop] have s2: "size_attr N2 = size_attr N" by simp
  from assms True loop s2 show ?thesis
    by (auto simp: add_wires_def Let_def split: option.splits if_splits)
qed

text \<open>
  On a reachable network \<^verbatim>\<open>size\<close> is a finite float other than \<open>0\<close>: the last
  division of \<^verbatim>\<open>add_wires\<close> is a division of finite floats.
\<close>

lemma reachable_size: "reachable np sh N \<Longrightarrow> \<exists>s. size_attr N = Finite s \<and> s \<noteq> 0"
proof (induction rule: reachable.induct)
  case (created wire_length0 width0 density seed resistance N)
  from create_NWN_cases [OF created] show ?case by auto
next
  case (added N lines els N')
  from add_wires_size [OF added.hyps(2)] added.IH show ?case by simp
qed

text \<open>
  C7. In every network that \<^verbatim>\<open>create_NWN\<close> followed by calls of \<^verbatim>\<open>add_wires\<close>
  that return normally can produce, \<^verbatim>\<open>electrode_list\<close> is the sorted list of the
  wire indices whose \<^verbatim>\<open>electrode\<close> flag is true: it increases strictly, and its
  elements are exactly the nodes flagged. New wires get the indices from the old
  \<^verbatim>\<open>wire_num\<close> upwards, above every node there is, so appending keeps the order.
  On these networks \<^verbatim>\<open>size\<close> is a finite float other than \<open>0\<close>
  (\<open>reachable_size\<close>).
\<close>

theorem electrode_list_sorted_flags:
  fixes N :: "('l, 'p) NWN"
  assumes "reachable np sh N"
  shows "electrode_list N = sorted_electrode_indices N \<and>
         sorted_wrt (<) (electrode_list N) \<and>
         set (electrode_list N) = {i. \<exists>w. map_of (nodes N) i = Some w \<and> electrode w}"
proof -
  let ?P = "\<lambda>(i :: int, w :: ('l, 'p) wire). electrode w"
  from reachable_invariant [OF assms] have
    s: "sorted_wrt (<) (map fst (nodes N))" and
    e: "electrode_list N = map fst (filter ?P (nodes N))"
    unfolding network_invariant_def by simp_all
  have s': "sorted_wrt (<) (map fst (filter ?P (nodes N)))"
    using s by (rule sorted_wrt_map_filter)
  then have "sorted (map fst (filter ?P (nodes N)))" by (simp add: strict_sorted_iff)
  then have "sort (map fst (filter ?P (nodes N))) = map fst (filter ?P (nodes N))"
    by (rule sorted_sort_id)
  then have 1: "electrode_list N = sorted_electrode_indices N"
    unfolding sorted_electrode_indices_def e by simp
  have 2: "sorted_wrt (<) (electrode_list N)" unfolding e by (rule s')
  from s have d: "distinct (map fst (nodes N))" by (simp add: strict_sorted_iff)
  have 3: "set (electrode_list N) = {i. \<exists>w. map_of (nodes N) i = Some w \<and> electrode w}"
    unfolding e using d by force
  from 1 2 3 show ?thesis by blast
qed


theorem electrode_list_sorted_flags_witness:
  "reachable step_rng box_shapely grown_network \<and>
   electrode_list grown_network = [2, 4] \<and>
   sorted_electrode_indices grown_network = [2, 4]"
proof -
  have "reachable step_rng box_shapely cross_network"
    using create_cross by (rule reachable.created)
  then have r: "reachable step_rng box_shapely grown_network"
    using grow_cross by (rule reachable.added)
  from electrode_list_sorted_flags [OF r] r show ?thesis
    by (simp add: grown_network_def)
qed


text \<open>
  C6. Every key of the dictionary that \<^verbatim>\<open>find_intersects\<close> returns is a pair
  \<open>(i, j)\<close> with \<open>i < j\<close> (so \<open>i \<noteq> j\<close>), and no key occurs twice. The same holds
  for \<^verbatim>\<open>find_line_intersects\<close>, whose keys are \<open>(min ind j, max ind j)\<close> for an
  index \<open>j \<noteq> ind\<close> of the sequence, whichever of the two is the designated line.
  Hence the same holds for the junction keys, of the edges and of \<^verbatim>\<open>loc\<close>, of every
  network that \<^verbatim>\<open>create_NWN\<close> and \<^verbatim>\<open>add_wires\<close> produce.
\<close>

theorem intersect_keys_canonical:
  fixes N :: "('l, 'p) NWN"
  shows
  "(find_intersects sh lines = Inr out \<longrightarrow>
      distinct (map fst out) \<and> (\<forall>k \<in> fst ` set out. fst k < snd k)) \<and>
   (find_line_intersects sh ind lines = Inr out' \<longrightarrow>
      distinct (map fst out') \<and>
      (\<forall>k \<in> fst ` set out'. fst k < snd k \<and>
         (\<exists>j. 0 \<le> j \<and> j < len lines \<and> j \<noteq> ind \<and> k = (min ind j, max ind j)))) \<and>
   (reachable np sh N \<longrightarrow>
      distinct (map fst (edges N)) \<and> (\<forall>k \<in> fst ` set (edges N). fst k < snd k) \<and>
      distinct (map fst (loc N)) \<and> (\<forall>k \<in> fst ` set (loc N). fst k < snd k))"
proof (intro conjI impI)
  assume a: "find_intersects sh lines = Inr out"
  then show "distinct (map fst out)" by (rule find_intersects_distinct)
  from a show "\<forall>k \<in> fst ` set out. fst k < snd k" by (rule find_intersects_keys_lt)
next
  assume b: "find_line_intersects sh ind lines = Inr out'"
  then show "distinct (map fst out')"
    unfolding find_line_intersects_def by (auto dest: find_line_intersects_loop_distinct)
  from b have sub: "fst ` set out' \<subseteq> (\<lambda>j. (min ind j, max ind j)) ` (set [0..len lines - 1] - {ind})"
    using find_line_intersects_loop_keys [of sh ind lines "[0..len lines - 1]" "[]" out']
    unfolding find_line_intersects_def by simp
  show "\<forall>k \<in> fst ` set out'. fst k < snd k \<and>
         (\<exists>j. 0 \<le> j \<and> j < len lines \<and> j \<noteq> ind \<and> k = (min ind j, max ind j))"
  proof
    fix k assume "k \<in> fst ` set out'"
    with sub obtain j where "j \<in> set [0..len lines - 1]" "j \<noteq> ind" "k = (min ind j, max ind j)"
      by blast
    then show "fst k < snd k \<and>
         (\<exists>j. 0 \<le> j \<and> j < len lines \<and> j \<noteq> ind \<and> k = (min ind j, max ind j))"
      by (auto simp: min_def max_def)
  qed
next
  assume "reachable np sh N"
  then have inv: "network_invariant (wire_num N) N" by (rule reachable_invariant)
  from inv show "distinct (map fst (edges N))" unfolding network_invariant_def by blast
  from inv show "\<forall>k \<in> fst ` set (edges N). fst k < snd k"
    unfolding network_invariant_def by blast
  from inv show "distinct (map fst (loc N))" unfolding network_invariant_def by blast
  from inv show "\<forall>k \<in> fst ` set (loc N). fst k < snd k"
    unfolding network_invariant_def by blast
qed

theorem intersect_keys_canonical_witness:
  "find_intersects box_shapely three_wires = Inr [((0, 1), (1, 1)), ((0, 2), (3, 1))] \<and>
   find_line_intersects box_shapely 2 three_wires = Inr [((0, 2), (3, 1))] \<and>
   reachable step_rng box_shapely grown_network \<and>
   distinct (map fst [((0 :: int, 1 :: int), (1 :: real, 1 :: real)), ((0, 2), (3, 1))]) \<and>
   distinct (map fst [((0 :: int, 2 :: int), (3 :: real, 1 :: real))]) \<and>
   distinct (map fst (edges grown_network)) \<and>
   fst ` set (edges grown_network) = {(0, 1), (0, 2), (0, 4)}"
proof -
  have a: "find_intersects box_shapely three_wires = Inr [((0, 1), (1, 1)), ((0, 2), (3, 1))]"
    by (simp add: find_intersects_def three_wires_def triu_indices_def upto_0_2
        box_shapely_def box_intersects_def box_intersection_def)
  have b: "find_line_intersects box_shapely 2 three_wires = Inr [((0, 2), (3, 1))]"
    by (simp add: find_line_intersects_def three_wires_def upto_0_2 box_shapely_def
        box_intersects_def box_intersection_def)
  have "reachable step_rng box_shapely cross_network"
    using create_cross by (rule reachable.created)
  then have r: "reachable step_rng box_shapely grown_network"
    using grow_cross by (rule reachable.added)
  have k: "fst ` set (edges grown_network) = {(0, 1), (0, 2), (0, 4)}"
    by (simp add: grown_network_def)
  from intersect_keys_canonical
         [of box_shapely three_wires "[((0, 1), (1, 1)), ((0, 2), (3, 1))]" 2
             "[((0, 2), (3, 1))]" step_rng grown_network] a b r k
  show ?thesis by simp
qed

end
